theory Spec2Isabelle
  imports Complex_Main "HOL-Library.Sublist"
begin

section \<open>Numbers, typed arrays and checked indexing\<close>

text \<open>
  The transforms of \<^verbatim>\<open>src/lib/transforms.ts\<close> work on the typed arrays behind the
  accessors of a glTF document. A JavaScript number is modelled as a real: arithmetic is
  exact, and a store into a \<^verbatim>\<open>Float32Array\<close> keeps the value. The integer arrays
  convert a stored number as the language does (truncate toward zero, wrap modulo the
  width). An exception is a value: every transform returns \<open>error + state\<close>.
\<close>

datatype error = RangeError | ParseError

datatype array_kind = Float32 | Uint32 | Uint16 | Uint8 | Int16 | Int8

record typed_array =
  kind :: array_kind
  elems :: "real list"

definition js_trunc :: "real \<Rightarrow> int" where
  "js_trunc x = (if 0 \<le> x then \<lfloor>x\<rfloor> else \<lceil>x\<rceil>)"

definition to_uint :: "nat \<Rightarrow> real \<Rightarrow> real" where
  "to_uint w x = real_of_int (js_trunc x mod 2 ^ w)"

definition to_sint :: "nat \<Rightarrow> real \<Rightarrow> real" where
  "to_sint w x =
     (let m = js_trunc x mod 2 ^ w
      in real_of_int (if 2 ^ (w - 1) \<le> m then m - 2 ^ w else m))"

text \<open>What \<^verbatim>\<open>arr[k] = x\<close> stores in an array of each element type.\<close>

fun coerce :: "array_kind \<Rightarrow> real \<Rightarrow> real" where
  "coerce Float32 x = x"
| "coerce Uint32 x = to_uint 32 x"
| "coerce Uint16 x = to_uint 16 x"
| "coerce Uint8 x = to_uint 8 x"
| "coerce Int16 x = to_sint 16 x"
| "coerce Int8 x = to_sint 8 x"

text \<open>
  \<^verbatim>\<open>at(arr, i)\<close>: the element at \<open>i\<close>, or a \<^verbatim>\<open>RangeError\<close> when \<^verbatim>\<open>arr[i]\<close> is
  undefined, which is the case for every \<open>i\<close> that is not an integer in \<open>[0, length)\<close>.
\<close>

definition js_at :: "'a list \<Rightarrow> real \<Rightarrow> error + 'a" where
  "js_at arr i =
     (if 0 \<le> i \<and> i = real_of_int \<lfloor>i\<rfloor> \<and> nat \<lfloor>i\<rfloor> < length arr
      then Inr (arr ! nat \<lfloor>i\<rfloor>) else Inl RangeError)"

text \<open>A loop body that may throw, run over a list of loop indices.\<close>

fun foldM :: "('s \<Rightarrow> 'a \<Rightarrow> error + 's) \<Rightarrow> 's \<Rightarrow> 'a list \<Rightarrow> error + 's" where
  "foldM f s [] = Inr s"
| "foldM f s (x # xs) = (case f s x of Inl e \<Rightarrow> Inl e | Inr s' \<Rightarrow> foldM f s' xs)"

fun mapM :: "('a \<Rightarrow> error + 'b) \<Rightarrow> 'a list \<Rightarrow> error + 'b list" where
  "mapM f [] = Inr []"
| "mapM f (x # xs) =
     (case f x of Inl e \<Rightarrow> Inl e
      | Inr y \<Rightarrow> (case mapM f xs of Inl e \<Rightarrow> Inl e | Inr ys \<Rightarrow> Inr (y # ys)))"

section \<open>Accessors, primitives, meshes\<close>

datatype accessor_type = SCALAR | VEC2 | VEC3 | VEC4 | MAT2 | MAT3 | MAT4

record accessor =
  acc_type :: accessor_type
  acc_array :: "typed_array option"

fun type_size :: "accessor_type \<Rightarrow> nat" where
  "type_size SCALAR = 1"
| "type_size VEC2 = 2"
| "type_size VEC3 = 3"
| "type_size VEC4 = 4"
| "type_size MAT2 = 4"
| "type_size MAT3 = 9"
| "type_size MAT4 = 16"

definition getElementSize :: "accessor \<Rightarrow> nat" where
  "getElementSize a = type_size (acc_type a)"

text \<open>
  An accessor is an object of the document, and a primitive holds references to accessors:
  one for each attribute semantic and, when it is indexed, one for the indices. Two
  primitives, or two semantics of one primitive, may hold the same reference. The accessors
  of a document are a store from references to accessors; \<^verbatim>\<open>setArray\<close> writes the store,
  so every holder of the reference sees the new array. The typed array of an accessor is a
  value of the accessor: no two accessors share an array object.
\<close>

type_synonym accessors = "nat \<rightharpoonup> accessor"

record primitive =
  prim_mode :: nat
  prim_attributes :: "(string \<times> nat) list"
  prim_indices :: "nat option"

text \<open>
  \<^verbatim>\<open>getAttribute\<close> and \<^verbatim>\<open>getIndices\<close> give the accessor the primitive refers to, here
  together with the reference, or nothing; \<^verbatim>\<open>listSemantics\<close> gives the semantics in the
  order the primitive lists them.
\<close>

definition getAttribute :: "accessors \<Rightarrow> primitive \<Rightarrow> string \<Rightarrow> (nat \<times> accessor) option" where
  "getAttribute accs prim semantic =
     (case map_of (prim_attributes prim) semantic of
        None \<Rightarrow> None
      | Some r \<Rightarrow> map_option (Pair r) (accs r))"

definition getIndices :: "accessors \<Rightarrow> primitive \<Rightarrow> (nat \<times> accessor) option" where
  "getIndices accs prim =
     (case prim_indices prim of
        None \<Rightarrow> None
      | Some r \<Rightarrow> map_option (Pair r) (accs r))"

definition listSemantics :: "primitive \<Rightarrow> string list" where
  "listSemantics prim = map fst (prim_attributes prim)"

definition setArray :: "nat \<Rightarrow> typed_array \<Rightarrow> accessors \<Rightarrow> accessors" where
  "setArray r arr accs =
     (case accs r of None \<Rightarrow> accs | Some a \<Rightarrow> accs(r \<mapsto> a\<lparr>acc_array := Some arr\<rparr>))"

record mesh =
  mesh_primitives :: "primitive list"
  mesh_weights :: "real list"

section \<open>Nodes, animations, documents\<close>

datatype target_path = Translation | Rotation | Scale | Weights

record node =
  node_translation :: "real list"
  node_rotation :: "real list"
  node_scale :: "real list"
  node_mesh :: "nat option"

text \<open>
  The animation transform only reads the accessors of a sampler, so a sampler carries them
  as they are.
\<close>

record sampler =
  smp_input :: "accessor option"
  smp_output :: "accessor option"

text \<open>
  A channel refers to its sampler by the sampler's identity within the owning animation, and
  to its target node by the node's position in the document's node list.
\<close>

record channel =
  ch_sampler :: "nat option"
  ch_targetNode :: "nat option"
  ch_targetPath :: "target_path option"

record animation =
  anim_channels :: "channel list"
  anim_samplers :: "nat \<rightharpoonup> sampler"

record document =
  doc_nodes :: "node list"
  doc_meshes :: "mesh list"
  doc_accessors :: accessors
  doc_animations :: "animation list"
  doc_skins :: "nat list list"

section \<open>mergeByDistance\<close>

type_synonym cell = "int \<times> int \<times> int"

definition js_round :: "real \<Rightarrow> int" where
  "js_round x = \<lfloor>x + 1 / 2\<rfloor>"

text \<open>The key of vertex \<open>i\<close>: its three coordinates, scaled and rounded.\<close>

definition vertex_key :: "real \<Rightarrow> real list \<Rightarrow> nat \<Rightarrow> error + cell" where
  "vertex_key precision positions i =
     (case js_at positions (real (i * 3)) of Inl e \<Rightarrow> Inl e | Inr px \<Rightarrow>
      case js_at positions (real (i * 3 + 1)) of Inl e \<Rightarrow> Inl e | Inr py \<Rightarrow>
      case js_at positions (real (i * 3 + 2)) of Inl e \<Rightarrow> Inl e | Inr pz \<Rightarrow>
        Inr (js_round (px * precision), js_round (py * precision),
             js_round (pz * precision)))"

text \<open>
  The state of the spatial-hash loop: \<^verbatim>\<open>vertexMap\<close>, \<^verbatim>\<open>remap\<close> (a
  \<^verbatim>\<open>Uint32Array\<close>, so every store wraps modulo \<open>2^32\<close>) and \<^verbatim>\<open>newToOld\<close>.
\<close>

type_synonym hash_state = "(cell \<rightharpoonup> nat) \<times> nat list \<times> nat list"

definition hash_step :: "real \<Rightarrow> real list \<Rightarrow> hash_state \<Rightarrow> nat \<Rightarrow> error + hash_state" where
  "hash_step precision positions st i =
     (case st of (vertexMap, remap, newToOld) \<Rightarrow>
      case vertex_key precision positions i of Inl e \<Rightarrow> Inl e | Inr key \<Rightarrow>
       (case vertexMap key of
          Some existing \<Rightarrow> Inr (vertexMap, remap[i := existing mod 2 ^ 32], newToOld)
        | None \<Rightarrow>
            (let newIdx = length newToOld
             in Inr (vertexMap(key \<mapsto> newIdx), remap[i := newIdx mod 2 ^ 32],
                     newToOld @ [i]))))"

text \<open>
  The loop runs for every \<open>i\<close> with \<open>i < length / 3\<close>; \<^verbatim>\<open>new Uint32Array(vertCount)\<close>
  has the length \<open>vertCount\<close> truncated.
\<close>

definition loop_count :: "nat \<Rightarrow> nat \<Rightarrow> nat" where
  "loop_count len stride = (len + stride - 1) div stride"

definition build_hash :: "real \<Rightarrow> real list \<Rightarrow> error + hash_state" where
  "build_hash precision positions =
     foldM (hash_step precision positions)
       (Map.empty, replicate (length positions div 3) 0, [])
       [0 ..< loop_count (length positions) 3]"

text \<open>
  Compacting one attribute: element \<open>j\<close> of new vertex \<open>i\<close> is read from the old array at
  \<open>newToOld[i] * itemSize + j\<close>. The new array has the constructor of the old one, so the
  copied values are stored as they are.
\<close>

definition gather_indices :: "nat list \<Rightarrow> nat \<Rightarrow> nat list" where
  "gather_indices newToOld itemSize =
     concat (map (\<lambda>oldIdx. map (\<lambda>j. oldIdx * itemSize + j) [0 ..< itemSize]) newToOld)"

definition compact_attribute :: "nat list \<Rightarrow> accessor \<Rightarrow> error + accessor" where
  "compact_attribute newToOld attr =
     (case acc_array attr of
        None \<Rightarrow> Inr attr
      | Some oldArray \<Rightarrow>
          (case mapM (\<lambda>k. js_at (elems oldArray) (real k))
                  (gather_indices newToOld (getElementSize attr)) of
             Inl e \<Rightarrow> Inl e
           | Inr vs \<Rightarrow> Inr (attr\<lparr>acc_array := Some (oldArray\<lparr>elems := vs\<rparr>)\<rparr>)))"


text \<open>
  The body of the loop over the semantics: the accessor of the semantic, as the store has
  it by then, is compacted and written back.
\<close>

definition compact_semantic :: "nat list \<Rightarrow> primitive \<Rightarrow> accessors \<Rightarrow> string \<Rightarrow> error + accessors" where
  "compact_semantic newToOld prim accs semantic =
     (case getAttribute accs prim semantic of
        None \<Rightarrow> Inr accs
      | Some (r, attr) \<Rightarrow>
          (case compact_attribute newToOld attr of
             Inl e \<Rightarrow> Inl e
           | Inr attr' \<Rightarrow> Inr (accs(r \<mapsto> attr'))))"

text \<open>
  The body of the loop over the primitives. The positions and the indices are read before
  anything is written; the attributes are compacted one after the other in the store, and
  the index accessor is written last.
\<close>

definition mergeByDistance_prim :: "real \<Rightarrow> accessors \<Rightarrow> primitive \<Rightarrow> error + accessors" where
  "mergeByDistance_prim tolerance accs prim =
     (case getAttribute accs prim ''POSITION'' of None \<Rightarrow> Inr accs | Some (pr, posAccessor) \<Rightarrow>
      case getIndices accs prim of None \<Rightarrow> Inr accs | Some (ir, indicesAccessor) \<Rightarrow>
      case acc_array posAccessor of None \<Rightarrow> Inr accs | Some positions \<Rightarrow>
      case acc_array indicesAccessor of None \<Rightarrow> Inr accs | Some indices \<Rightarrow>
      case build_hash (1 / tolerance) (elems positions) of Inl e \<Rightarrow> Inl e
      | Inr (vertexMap, remap, newToOld) \<Rightarrow>
          if real (length (elems positions)) / 3 - real (length newToOld) = 0 then Inr accs
          else
            (case mapM (js_at remap) (elems indices) of Inl e \<Rightarrow> Inl e | Inr newIndices \<Rightarrow>
             case foldM (compact_semantic newToOld prim) accs (listSemantics prim) of
               Inl e \<Rightarrow> Inl e
             | Inr accs' \<Rightarrow>
                 Inr (setArray ir \<lparr>kind = Uint32, elems = map real newIndices\<rparr> accs')))"

definition mergeByDistance_mesh :: "real \<Rightarrow> accessors \<Rightarrow> mesh \<Rightarrow> error + accessors" where
  "mergeByDistance_mesh tolerance accs m =
     foldM (mergeByDistance_prim tolerance) accs (mesh_primitives m)"

definition mergeByDistance :: "real \<Rightarrow> document \<Rightarrow> error + document" where
  "mergeByDistance tolerance doc =
     (case foldM (mergeByDistance_mesh tolerance) (doc_accessors doc) (doc_meshes doc) of
        Inl e \<Rightarrow> Inl e
      | Inr accs \<Rightarrow> Inr (doc\<lparr>doc_accessors := accs\<rparr>))"

section \<open>removeDegenerateFaces\<close>

text \<open>
  The area of the triangle with the corners \<open>i0\<close>, \<open>i1\<close>, \<open>i2\<close>: nine checked reads
  of the position array (three for each corner, in the order of the source), then half
  the length of the cross product of two edges.
\<close>

definition vertex_at :: "real list \<Rightarrow> real \<Rightarrow> error + real \<times> real \<times> real" where
  "vertex_at positions i =
     (case js_at positions (i * 3) of Inl e \<Rightarrow> Inl e | Inr vx \<Rightarrow>
      case js_at positions (i * 3 + 1) of Inl e \<Rightarrow> Inl e | Inr vy \<Rightarrow>
      case js_at positions (i * 3 + 2) of Inl e \<Rightarrow> Inl e | Inr vz \<Rightarrow> Inr (vx, vy, vz))"

definition cross_area :: "real \<times> real \<times> real \<Rightarrow> real \<times> real \<times> real \<Rightarrow> real \<times> real \<times> real \<Rightarrow> real" where
  "cross_area v0 v1 v2 =
     (case v0 of (v0x, v0y, v0z) \<Rightarrow> case v1 of (v1x, v1y, v1z) \<Rightarrow> case v2 of (v2x, v2y, v2z) \<Rightarrow>
        (let ax = v1x - v0x; ay = v1y - v0y; az = v1z - v0z;
             bx = v2x - v0x; by = v2y - v0y; bz = v2z - v0z;
             cx = ay * bz - az * by;
             cy = az * bx - ax * bz;
             cz = ax * by - ay * bx
         in 0.5 * sqrt (cx * cx + cy * cy + cz * cz)))"

definition tri_area :: "real list \<Rightarrow> real \<Rightarrow> real \<Rightarrow> real \<Rightarrow> error + real" where
  "tri_area positions i0 i1 i2 =
     (case vertex_at positions i0 of Inl e \<Rightarrow> Inl e | Inr v0 \<Rightarrow>
      case vertex_at positions i1 of Inl e \<Rightarrow> Inl e | Inr v1 \<Rightarrow>
      case vertex_at positions i2 of Inl e \<Rightarrow> Inl e | Inr v2 \<Rightarrow>
        Inr (cross_area v0 v1 v2))"

definition face_step ::
  "real \<Rightarrow> real list \<Rightarrow> real list \<Rightarrow> real list \<Rightarrow> nat \<Rightarrow> error + real list" where
  "face_step minArea positions indices validIndices i =
     (case js_at indices (real i) of Inl e \<Rightarrow> Inl e | Inr i0 \<Rightarrow>
      case js_at indices (real (i + 1)) of Inl e \<Rightarrow> Inl e | Inr i1 \<Rightarrow>
      case js_at indices (real (i + 2)) of Inl e \<Rightarrow> Inl e | Inr i2 \<Rightarrow>
        if i0 = i1 \<or> i1 = i2 \<or> i0 = i2 then Inr validIndices
        else (case tri_area positions i0 i1 i2 of
                Inl e \<Rightarrow> Inl e
              | Inr area \<Rightarrow>
                  if area < minArea then Inr validIndices
                  else Inr (validIndices @ [i0, i1, i2])))"

text \<open>The loop visits \<open>i = 0, 3, 6, \<dots>\<close> while \<open>i < indices.length\<close>.\<close>

definition removeDegenerateFaces_prim :: "real \<Rightarrow> accessors \<Rightarrow> primitive \<Rightarrow> error + accessors" where
  "removeDegenerateFaces_prim minArea accs prim =
     (if prim_mode prim \<noteq> 4 then Inr accs else
      case getAttribute accs prim ''POSITION'' of None \<Rightarrow> Inr accs | Some (pr, posAccessor) \<Rightarrow>
      case getIndices accs prim of None \<Rightarrow> Inr accs | Some (ir, indicesAccessor) \<Rightarrow>
      case acc_array posAccessor of None \<Rightarrow> Inr accs | Some positions \<Rightarrow>
      case acc_array indicesAccessor of None \<Rightarrow> Inr accs | Some indices \<Rightarrow>
      case foldM (face_step minArea (elems positions) (elems indices)) []
             (map (\<lambda>k. k * 3) [0 ..< loop_count (length (elems indices)) 3]) of
        Inl e \<Rightarrow> Inl e
      | Inr validIndices \<Rightarrow>
          if length validIndices < length (elems indices)
          then Inr (setArray ir \<lparr>kind = Uint32, elems = map (coerce Uint32) validIndices\<rparr> accs)
          else Inr accs)"

definition removeDegenerateFaces_mesh :: "real \<Rightarrow> accessors \<Rightarrow> mesh \<Rightarrow> error + accessors" where
  "removeDegenerateFaces_mesh minArea accs m =
     foldM (removeDegenerateFaces_prim minArea) accs (mesh_primitives m)"

definition removeDegenerateFaces :: "real \<Rightarrow> document \<Rightarrow> error + document" where
  "removeDegenerateFaces minArea doc =
     (case foldM (removeDegenerateFaces_mesh minArea) (doc_accessors doc) (doc_meshes doc) of
        Inl e \<Rightarrow> Inl e
      | Inr accs \<Rightarrow> Inr (doc\<lparr>doc_accessors := accs\<rparr>))"

subsection \<open>Notions the properties of removeDegenerateFaces are stated with\<close>

text \<open>A value an unsigned index array can hold: a natural number below \<open>2^32\<close>.\<close>

definition is_uint32 :: "real \<Rightarrow> bool" where
  "is_uint32 v = (0 \<le> v \<and> v = real_of_int \<lfloor>v\<rfloor> \<and> v < 2 ^ 32)"

text \<open>An index value that names a vertex: a natural number below the vertex count.\<close>

definition index_ok :: "nat \<Rightarrow> real \<Rightarrow> bool" where
  "index_ok vertCount v = (0 \<le> v \<and> v = real_of_int \<lfloor>v\<rfloor> \<and> nat \<lfloor>v\<rfloor> < vertCount)"

text \<open>
  The area of a triangle in the words of the specification: half the magnitude of the
  cross product of its edge vectors.
\<close>

type_synonym vec3 = "real \<times> real \<times> real"

definition edge_vector :: "vec3 \<Rightarrow> vec3 \<Rightarrow> vec3" where
  "edge_vector p q =
     (case p of (px, py, pz) \<Rightarrow> case q of (qx, qy, qz) \<Rightarrow> (qx - px, qy - py, qz - pz))"

definition cross_product :: "vec3 \<Rightarrow> vec3 \<Rightarrow> vec3" where
  "cross_product a b =
     (case a of (a1, a2, a3) \<Rightarrow> case b of (b1, b2, b3) \<Rightarrow>
        (a2 * b3 - a3 * b2, a3 * b1 - a1 * b3, a1 * b2 - a2 * b1))"

definition magnitude :: "vec3 \<Rightarrow> real" where
  "magnitude v = (case v of (x, y, z) \<Rightarrow> sqrt (x\<^sup>2 + y\<^sup>2 + z\<^sup>2))"

definition triangle_area :: "vec3 \<Rightarrow> vec3 \<Rightarrow> vec3 \<Rightarrow> real" where
  "triangle_area p q r = magnitude (cross_product (edge_vector p q) (edge_vector p r)) / 2"

text \<open>The position of vertex \<open>i\<close> in a position array.\<close>

definition vertex_position :: "real list \<Rightarrow> nat \<Rightarrow> vec3" where
  "vertex_position positions i =
     (positions ! (i * 3), positions ! (i * 3 + 1), positions ! (i * 3 + 2))"

text \<open>
  A triangle that is not degenerate: its three indices name vertices of the position array
  and differ from each other, and its area is not below \<open>minArea\<close>.
\<close>

definition nondegenerate :: "real \<Rightarrow> real list \<Rightarrow> real \<times> real \<times> real \<Rightarrow> bool" where
  "nondegenerate minArea positions t =
     (case t of (i0, i1, i2) \<Rightarrow>
        i0 \<noteq> i1 \<and> i1 \<noteq> i2 \<and> i0 \<noteq> i2
      \<and> index_ok (length positions div 3) i0 \<and> index_ok (length positions div 3) i1
      \<and> index_ok (length positions div 3) i2
      \<and> \<not> triangle_area (vertex_position positions (nat \<lfloor>i0\<rfloor>))
             (vertex_position positions (nat \<lfloor>i1\<rfloor>))
             (vertex_position positions (nat \<lfloor>i2\<rfloor>)) < minArea)"

fun triples :: "'a list \<Rightarrow> ('a \<times> 'a \<times> 'a) list" where
  "triples (a # b # c # xs) = (a, b, c) # triples xs"
| "triples xs = []"

text \<open>
  The position and index values of a primitive, and the triangles a triangle primitive
  draws: its index triples, or, when it has no index accessor, its vertices three by three.
\<close>

definition position_values :: "accessors \<Rightarrow> primitive \<Rightarrow> real list" where
  "position_values accs prim =
     (case getAttribute accs prim ''POSITION'' of
        None \<Rightarrow> []
      | Some (r, a) \<Rightarrow> (case acc_array a of None \<Rightarrow> [] | Some arr \<Rightarrow> elems arr))"

definition index_values :: "accessors \<Rightarrow> primitive \<Rightarrow> real list" where
  "index_values accs prim =
     (case getIndices accs prim of
        None \<Rightarrow> []
      | Some (r, a) \<Rightarrow> (case acc_array a of None \<Rightarrow> [] | Some arr \<Rightarrow> elems arr))"

definition vertex_count :: "accessors \<Rightarrow> primitive \<Rightarrow> nat" where
  "vertex_count accs prim = length (position_values accs prim) div 3"

definition drawn_triangles :: "accessors \<Rightarrow> primitive \<Rightarrow> (real \<times> real \<times> real) list" where
  "drawn_triangles accs prim =
     triples (case getIndices accs prim of
                None \<Rightarrow> map real [0 ..< vertex_count accs prim]
              | Some ia \<Rightarrow> index_values accs prim)"

definition no_degenerate_faces :: "real \<Rightarrow> accessors \<Rightarrow> primitive \<Rightarrow> bool" where
  "no_degenerate_faces minArea accs prim =
     list_all (nondegenerate minArea (position_values accs prim)) (drawn_triangles accs prim)"

text \<open>All primitives of a document, in the order the transforms visit them.\<close>

definition all_primitives :: "document \<Rightarrow> primitive list" where
  "all_primitives doc = concat (map mesh_primitives (doc_meshes doc))"

text \<open>
  No accessor of the document serves both as a vertex attribute and as an index buffer, and
  every index array holds unsigned integers.
\<close>

definition indices_apart :: "document \<Rightarrow> bool" where
  "indices_apart doc =
     list_all (\<lambda>p. list_all (\<lambda>q. case prim_indices q of
                                   None \<Rightarrow> True
                                 | Some r \<Rightarrow> r \<notin> snd ` set (prim_attributes p))
                      (all_primitives doc))
       (all_primitives doc)"

definition indices_unsigned :: "document \<Rightarrow> bool" where
  "indices_unsigned doc =
     list_all (\<lambda>p. list_all is_uint32 (index_values (doc_accessors doc) p)) (all_primitives doc)"

section \<open>normalizeWeights\<close>

text \<open>
  One vertex: the sum of its \<^verbatim>\<open>elementSize\<close> components, then, when the sum is positive
  and more than \<open>1e-6\<close> away from 1, every component divided by the sum and stored back
  into the same array (a store converts the quotient to the array's element type).
\<close>

definition weight_sum :: "real list \<Rightarrow> nat \<Rightarrow> nat \<Rightarrow> error + real" where
  "weight_sum arr elementSize i =
     foldM (\<lambda>wsum j. case js_at arr (real (i * elementSize + j)) of
                        Inl e \<Rightarrow> Inl e
                      | Inr w \<Rightarrow> Inr (wsum + w))
       0 [0 ..< elementSize]"

definition divide_vertex :: "array_kind \<Rightarrow> real list \<Rightarrow> nat \<Rightarrow> nat \<Rightarrow> real \<Rightarrow> error + real list" where
  "divide_vertex k arr elementSize i wsum =
     foldM (\<lambda>a j. case js_at a (real (i * elementSize + j)) of
                      Inl e \<Rightarrow> Inl e
                    | Inr w \<Rightarrow> Inr (a[i * elementSize + j := coerce k (w / wsum)]))
       arr [0 ..< elementSize]"

definition normalize_vertex :: "array_kind \<Rightarrow> nat \<Rightarrow> real list \<Rightarrow> nat \<Rightarrow> error + real list" where
  "normalize_vertex k elementSize arr i =
     (case weight_sum arr elementSize i of
        Inl e \<Rightarrow> Inl e
      | Inr wsum \<Rightarrow>
          if 0 < wsum \<and> 1 / 10 ^ 6 < \<bar>wsum - 1\<bar>
          then divide_vertex k arr elementSize i wsum
          else Inr arr)"


text \<open>
  The loop writes into the array of the accessor, and \<^verbatim>\<open>setArray\<close> hands the same array
  back to it.
\<close>

definition normalizeWeights_prim :: "accessors \<Rightarrow> primitive \<Rightarrow> error + accessors" where
  "normalizeWeights_prim accs prim =
     (case getAttribute accs prim ''WEIGHTS_0'' of None \<Rightarrow> Inr accs | Some (wr, weights0) \<Rightarrow>
      case acc_array weights0 of None \<Rightarrow> Inr accs | Some arr \<Rightarrow>
        (let elementSize = getElementSize weights0
         in case foldM (normalize_vertex (kind arr) elementSize) (elems arr)
                   [0 ..< loop_count (length (elems arr)) elementSize] of
              Inl e \<Rightarrow> Inl e
            | Inr ws \<Rightarrow> Inr (setArray wr (arr\<lparr>elems := ws\<rparr>) accs)))"

definition normalizeWeights_mesh :: "accessors \<Rightarrow> mesh \<Rightarrow> error + accessors" where
  "normalizeWeights_mesh accs m = foldM normalizeWeights_prim accs (mesh_primitives m)"

definition normalizeWeights :: "document \<Rightarrow> error + document" where
  "normalizeWeights doc =
     (case foldM normalizeWeights_mesh (doc_accessors doc) (doc_meshes doc) of
        Inl e \<Rightarrow> Inl e
      | Inr accs \<Rightarrow> Inr (doc\<lparr>doc_accessors := accs\<rparr>))"

subsection \<open>Notions the properties of normalizeWeights are stated with\<close>

text \<open>The sum of the components of vertex \<open>i\<close>, and the test that makes the loop divide.\<close>

definition vertex_sum :: "real list \<Rightarrow> nat \<Rightarrow> nat \<Rightarrow> real" where
  "vertex_sum arr elementSize i = sum_list (map (\<lambda>j. arr ! (i * elementSize + j)) [0 ..< elementSize])"

definition off_unit :: "real \<Rightarrow> bool" where
  "off_unit s = (0 < s \<and> 1 / 10 ^ 6 < \<bar>s - 1\<bar>)"

section \<open>removeStaticTracksWithBake\<close>

type_synonym track_key = "int \<times> target_path"

record track_info =
  isStatic :: bool
  staticValue :: "real list option"

text \<open>\<^verbatim>\<open>nodeIndexMap.get(targetNode) ?? -1\<close>, and the key of a channel with a node and a path.\<close>

definition node_index :: "document \<Rightarrow> nat \<Rightarrow> int" where
  "node_index doc n = (if n < length (doc_nodes doc) then int n else - 1)"

definition channel_key :: "document \<Rightarrow> channel \<Rightarrow> track_key option" where
  "channel_key doc ch =
     (case ch_targetNode ch of None \<Rightarrow> None | Some n \<Rightarrow>
      case ch_targetPath ch of None \<Rightarrow> None | Some p \<Rightarrow> Some (node_index doc n, p))"

definition getSampler :: "(nat \<rightharpoonup> sampler) \<Rightarrow> channel \<Rightarrow> sampler option" where
  "getSampler samplers ch = (case ch_sampler ch of None \<Rightarrow> None | Some sid \<Rightarrow> samplers sid)"

subsection \<open>Pass 1\<close>

text \<open>
  What pass 1 reads of a channel before the static test: the key, the output array and the
  element size of the output accessor; \<open>None\<close> where the loop body ends with
  \<^verbatim>\<open>continue\<close>. (The count kept in \<^verbatim>\<open>totalChannelCount\<close> is never read.)
\<close>

definition analysed_output ::
  "document \<Rightarrow> (nat \<rightharpoonup> sampler) \<Rightarrow> channel \<Rightarrow> (track_key \<times> real list \<times> nat) option" where
  "analysed_output doc samplers ch =
     (case getSampler samplers ch of None \<Rightarrow> None | Some s \<Rightarrow>
      case channel_key doc ch of None \<Rightarrow> None | Some key \<Rightarrow>
      case smp_output s of None \<Rightarrow> None | Some output \<Rightarrow>
      case acc_array output of None \<Rightarrow> None | Some outputArray \<Rightarrow>
        if elems outputArray = [] then None
        else Some (key, elems outputArray, getElementSize output))"

text \<open>
  The inner loop over the components of keyframe \<open>i\<close> (\<open>base = i * elementSize\<close>): the
  result is the flag \<^verbatim>\<open>isStatic\<close>; a component off by more than the tolerance ends it.
\<close>

fun frame_scan :: "real \<Rightarrow> real list \<Rightarrow> real list \<Rightarrow> nat \<Rightarrow> nat list \<Rightarrow> error + bool" where
  "frame_scan tolerance outputArray firstValues base [] = Inr True"
| "frame_scan tolerance outputArray firstValues base (j # js) =
     (case js_at outputArray (real (base + j)) of Inl e \<Rightarrow> Inl e | Inr v \<Rightarrow>
      case js_at firstValues (real j) of Inl e \<Rightarrow> Inl e | Inr f \<Rightarrow>
        if tolerance < \<bar>v - f\<bar> then Inr False
        else frame_scan tolerance outputArray firstValues base js)"

text \<open>The outer loop over the keyframes, which stops once the flag is false.\<close>

fun static_scan :: "real \<Rightarrow> real list \<Rightarrow> real list \<Rightarrow> nat \<Rightarrow> nat list \<Rightarrow> error + bool" where
  "static_scan tolerance outputArray firstValues elementSize [] = Inr True"
| "static_scan tolerance outputArray firstValues elementSize (i # rest) =
     (case frame_scan tolerance outputArray firstValues (i * elementSize) [0 ..< elementSize] of
        Inl e \<Rightarrow> Inl e
      | Inr still \<Rightarrow>
          if still then static_scan tolerance outputArray firstValues elementSize rest
          else Inr False)"

definition is_static :: "real \<Rightarrow> real list \<Rightarrow> nat \<Rightarrow> error + bool" where
  "is_static tolerance outputArray elementSize =
     (if 1 < real (length outputArray) / real elementSize
      then static_scan tolerance outputArray (take elementSize outputArray) elementSize
             [1 ..< loop_count (length outputArray) elementSize]
      else Inr True)"

definition pass1_channel ::
  "real \<Rightarrow> document \<Rightarrow> (track_key \<Rightarrow> track_info list) \<Rightarrow> animation \<times> channel
     \<Rightarrow> error + (track_key \<Rightarrow> track_info list)" where
  "pass1_channel tolerance doc globalTrackMap ac =
     (case analysed_output doc (anim_samplers (fst ac)) (snd ac) of
        None \<Rightarrow> Inr globalTrackMap
      | Some (key, outputArray, elementSize) \<Rightarrow>
          (case is_static tolerance outputArray elementSize of
             Inl e \<Rightarrow> Inl e
           | Inr static \<Rightarrow>
               Inr (globalTrackMap(key := globalTrackMap key
                      @ [\<lparr>isStatic = static,
                          staticValue = (if static then Some (take elementSize outputArray)
                                         else None)\<rparr>]))))"

definition all_channels :: "document \<Rightarrow> (animation \<times> channel) list" where
  "all_channels doc = concat (map (\<lambda>a. map (Pair a) (anim_channels a)) (doc_animations doc))"

text \<open>
  \<^verbatim>\<open>globalTrackMap\<close> as a function to the list of tracks of a key: a key the map does not
  have has the empty list, and a key it has has at least one track.
\<close>

definition pass1 :: "real \<Rightarrow> document \<Rightarrow> error + (track_key \<Rightarrow> track_info list)" where
  "pass1 tolerance doc = foldM (pass1_channel tolerance doc) (\<lambda>key. []) (all_channels doc)"

subsection \<open>Pass 2\<close>

definition vec_close :: "real \<Rightarrow> real list \<Rightarrow> real list \<Rightarrow> bool" where
  "vec_close tolerance v reference =
     (length v = length reference \<and> list_all2 (\<lambda>a b. \<bar>a - b\<bar> \<le> tolerance) v reference)"

definition base_value :: "document \<Rightarrow> track_key \<Rightarrow> real list option" where
  "base_value doc key =
     (case key of (nodeIdx, path) \<Rightarrow>
        if nodeIdx < 0 \<or> int (length (doc_nodes doc)) \<le> nodeIdx then None
        else (let n = doc_nodes doc ! nat nodeIdx
              in case path of
                   Translation \<Rightarrow> Some (node_translation n)
                 | Rotation \<Rightarrow> Some (node_rotation n)
                 | Scale \<Rightarrow> Some (node_scale n)
                 | Weights \<Rightarrow>
                     (case node_mesh n of
                        None \<Rightarrow> None
                      | Some m \<Rightarrow> if m < length (doc_meshes doc)
                                  then Some (mesh_weights (doc_meshes doc ! m)) else None)))"

text \<open>Whether pass 2 puts a key into \<^verbatim>\<open>removableKeys\<close>.\<close>

definition removable :: "real \<Rightarrow> document \<Rightarrow> (track_key \<Rightarrow> track_info list) \<Rightarrow> track_key \<Rightarrow> bool" where
  "removable tolerance doc globalTrackMap key =
     (case globalTrackMap key of
        [] \<Rightarrow> False
      | firstTrack # rest \<Rightarrow>
          if list_ex (\<lambda>t. \<not> isStatic t) (firstTrack # rest) then False
          else (case staticValue firstTrack of
                  None \<Rightarrow> False
                | Some reference \<Rightarrow>
                    if \<not> list_all (\<lambda>t. case staticValue t of
                                          None \<Rightarrow> False
                                        | Some v \<Rightarrow> vec_close tolerance v reference)
                           (firstTrack # rest)
                    then False
                    else (case base_value doc key of
                            None \<Rightarrow> False
                          | Some baseValue \<Rightarrow> vec_close tolerance baseValue reference)))"

subsection \<open>Pass 3\<close>

text \<open>
  The scan of a channel that stays, which only feeds the log: the same comparison without
  the early exit of the inner loop.
\<close>

fun diag_frame :: "real \<Rightarrow> real list \<Rightarrow> nat \<Rightarrow> bool \<Rightarrow> nat list \<Rightarrow> error + bool" where
  "diag_frame tolerance outputArray base static [] = Inr static"
| "diag_frame tolerance outputArray base static (j # js) =
     (case js_at outputArray (real (base + j)) of Inl e \<Rightarrow> Inl e | Inr v \<Rightarrow>
      case js_at outputArray (real j) of Inl e \<Rightarrow> Inl e | Inr f \<Rightarrow>
        diag_frame tolerance outputArray base (if tolerance < \<bar>v - f\<bar> then False else static) js)"

fun diag_scan :: "real \<Rightarrow> real list \<Rightarrow> nat \<Rightarrow> nat list \<Rightarrow> error + bool" where
  "diag_scan tolerance outputArray elementSize [] = Inr True"
| "diag_scan tolerance outputArray elementSize (i # rest) =
     (case diag_frame tolerance outputArray (i * elementSize) True [0 ..< elementSize] of
        Inl e \<Rightarrow> Inl e
      | Inr still \<Rightarrow>
          if still then diag_scan tolerance outputArray elementSize rest else Inr False)"

definition kept_channel_scan :: "real \<Rightarrow> (nat \<rightharpoonup> sampler) \<Rightarrow> channel \<Rightarrow> error + bool" where
  "kept_channel_scan tolerance samplers ch =
     (case getSampler samplers ch of None \<Rightarrow> Inr False | Some s \<Rightarrow>
      case smp_output s of None \<Rightarrow> Inr False | Some output \<Rightarrow>
      case acc_array output of None \<Rightarrow> Inr False | Some outputArray \<Rightarrow>
        if 1 < real (length (elems outputArray)) / real (getElementSize output)
        then diag_scan tolerance (elems outputArray) (getElementSize output)
               [1 ..< loop_count (length (elems outputArray)) (getElementSize output)]
        else Inr False)"

text \<open>
  The parents of a sampler are the animation that lists it and the channels that refer to
  it; disposing a sampler takes it out of the animation and clears the reference of every
  channel that has one.
\<close>

definition sampler_parents :: "nat \<Rightarrow> channel list \<Rightarrow> nat" where
  "sampler_parents sid channels = 1 + length (filter (\<lambda>c. ch_sampler c = Some sid) channels)"

definition detach :: "nat \<Rightarrow> channel \<Rightarrow> channel" where
  "detach sid c = (if ch_sampler c = Some sid then c\<lparr>ch_sampler := None\<rparr> else c)"

text \<open>
  The loop over the channels of one animation: \<open>kept\<close> are the channels already visited
  that stay, the list argument the channels still to visit.
\<close>

fun pass3_channels ::
  "real \<Rightarrow> (channel \<Rightarrow> bool) \<Rightarrow> channel list \<Rightarrow> (nat \<rightharpoonup> sampler) \<Rightarrow> channel list
     \<Rightarrow> error + channel list \<times> (nat \<rightharpoonup> sampler)" where
  "pass3_channels tolerance inRemovable kept samplers [] = Inr (kept, samplers)"
| "pass3_channels tolerance inRemovable kept samplers (c # cs) =
     (if ch_targetNode c = None \<or> ch_targetPath c = None
      then pass3_channels tolerance inRemovable (kept @ [c]) samplers cs
      else if inRemovable c then
        (case ch_sampler c of
           None \<Rightarrow> pass3_channels tolerance inRemovable kept samplers cs
         | Some sid \<Rightarrow>
             if samplers sid \<noteq> None \<and> sampler_parents sid (kept @ cs) \<le> 1
             then pass3_channels tolerance inRemovable (map (detach sid) kept)
                    (samplers(sid := None)) (map (detach sid) cs)
             else pass3_channels tolerance inRemovable kept samplers cs)
      else (case kept_channel_scan tolerance samplers c of
              Inl e \<Rightarrow> Inl e
            | Inr static \<Rightarrow> pass3_channels tolerance inRemovable (kept @ [c]) samplers cs))"

definition in_removable ::
  "real \<Rightarrow> document \<Rightarrow> (track_key \<Rightarrow> track_info list) \<Rightarrow> channel \<Rightarrow> bool" where
  "in_removable tolerance doc globalTrackMap c =
     (case channel_key doc c of
        None \<Rightarrow> False
      | Some key \<Rightarrow> removable tolerance doc globalTrackMap key)"

definition pass3_animation ::
  "real \<Rightarrow> document \<Rightarrow> (track_key \<Rightarrow> track_info list) \<Rightarrow> animation \<Rightarrow> error + animation" where
  "pass3_animation tolerance doc globalTrackMap a =
     (case pass3_channels tolerance (in_removable tolerance doc globalTrackMap) []
             (anim_samplers a) (anim_channels a) of
        Inl e \<Rightarrow> Inl e
      | Inr (channels, samplers) \<Rightarrow> Inr \<lparr>anim_channels = channels, anim_samplers = samplers\<rparr>)"

definition removeStaticTracksWithBake :: "real \<Rightarrow> document \<Rightarrow> error + document" where
  "removeStaticTracksWithBake tolerance doc =
     (if doc_animations doc = [] then Inr doc
      else (case pass1 tolerance doc of
              Inl e \<Rightarrow> Inl e
            | Inr globalTrackMap \<Rightarrow>
                (case mapM (pass3_animation tolerance doc globalTrackMap) (doc_animations doc) of
                   Inl e \<Rightarrow> Inl e
                 | Inr animations \<Rightarrow> Inr (doc\<lparr>doc_animations := animations\<rparr>))))"

subsection \<open>Notions the properties of removeStaticTracksWithBake are stated with\<close>

text \<open>A channel that pass 3 disposes: it has a node and a path, and its key is removable.\<close>

definition disposed :: "(channel \<Rightarrow> bool) \<Rightarrow> channel \<Rightarrow> bool" where
  "disposed inRemovable c =
     (ch_targetNode c \<noteq> None \<and> ch_targetPath c \<noteq> None \<and> inRemovable c)"

text \<open>
  The outputs pass 1 analyses, in the order it meets them, and those of one key: each is
  the output array with the element size of its accessor.
\<close>

definition outputs :: "document \<Rightarrow> (track_key \<times> real list \<times> nat) list" where
  "outputs doc =
     List.map_filter (\<lambda>ac. analysed_output doc (anim_samplers (fst ac)) (snd ac))
       (all_channels doc)"

definition outputs_of :: "document \<Rightarrow> track_key \<Rightarrow> (real list \<times> nat) list" where
  "outputs_of doc key = map snd (filter (\<lambda>ko. fst ko = key) (outputs doc))"

text \<open>
  A static output: every component of every keyframe after the first is within the
  tolerance of the same component of the first keyframe. Its value is the first keyframe.
\<close>

definition static_output :: "real \<Rightarrow> real list \<times> nat \<Rightarrow> bool" where
  "static_output tolerance oe =
     (case oe of (outputArray, elementSize) \<Rightarrow>
        list_all (\<lambda>p. \<bar>outputArray ! p - outputArray ! (p mod elementSize)\<bar> \<le> tolerance)
          [elementSize ..< length outputArray])"

definition first_value :: "real list \<times> nat \<Rightarrow> real list" where
  "first_value oe = (case oe of (outputArray, elementSize) \<Rightarrow> take elementSize outputArray)"

definition track :: "real \<Rightarrow> real list \<times> nat \<Rightarrow> track_info" where
  "track tolerance oe =
     \<lparr>isStatic = static_output tolerance oe,
      staticValue = (if static_output tolerance oe then Some (first_value oe) else None)\<rparr>"

text \<open>
  Consensus as the transform decides it: the key has an analysed output, every output of the
  key is static, the value of each is within the tolerance of the value of the first, and
  the rest pose of the node is within the tolerance of the value of the first.
\<close>

definition consensus :: "real \<Rightarrow> document \<Rightarrow> track_key \<Rightarrow> bool" where
  "consensus tolerance doc key =
     (case outputs_of doc key of
        [] \<Rightarrow> False
      | first # rest \<Rightarrow>
          list_all (static_output tolerance) (first # rest)
        \<and> list_all (\<lambda>oe. vec_close tolerance (first_value oe) (first_value first)) (first # rest)
        \<and> (case base_value doc key of
              None \<Rightarrow> False
            | Some baseValue \<Rightarrow> vec_close tolerance baseValue (first_value first)))"

text \<open>
  Consensus in the words of the specification: the static values agree with each other,
  every one with every other.
\<close>

definition consensus_spec :: "real \<Rightarrow> document \<Rightarrow> track_key \<Rightarrow> bool" where
  "consensus_spec tolerance doc key =
     (case outputs_of doc key of
        [] \<Rightarrow> False
      | first # rest \<Rightarrow>
          list_all (static_output tolerance) (first # rest)
        \<and> list_all (\<lambda>oe. list_all (\<lambda>oe'. vec_close tolerance (first_value oe) (first_value oe'))
                           (first # rest)) (first # rest)
        \<and> (case base_value doc key of
              None \<Rightarrow> False
            | Some baseValue \<Rightarrow> vec_close tolerance baseValue (first_value first)))"

definition removed_by_consensus :: "real \<Rightarrow> document \<Rightarrow> channel \<Rightarrow> bool" where
  "removed_by_consensus tolerance doc c =
     (case channel_key doc c of None \<Rightarrow> False | Some key \<Rightarrow> consensus tolerance doc key)"

text \<open>
  A well-formed output holds whole keyframes: its length is a multiple of the element
  size of its accessor.
\<close>

definition wf_channel :: "(nat \<rightharpoonup> sampler) \<Rightarrow> channel \<Rightarrow> bool" where
  "wf_channel samplers c =
     (case getSampler samplers c of None \<Rightarrow> True | Some s \<Rightarrow>
      case smp_output s of None \<Rightarrow> True | Some output \<Rightarrow>
      case acc_array output of None \<Rightarrow> True | Some outputArray \<Rightarrow>
        length (elems outputArray) mod getElementSize output = 0)"

definition wf_outputs :: "document \<Rightarrow> bool" where
  "wf_outputs doc =
     list_all (\<lambda>a. list_all (wf_channel (anim_samplers a)) (anim_channels a)) (doc_animations doc)"

section \<open>The pipeline of compress\<close>

text \<open>
  The transforms \<^verbatim>\<open>compress\<close> hands to \<^verbatim>\<open>document.transform\<close>, in the order it runs them.
  The skin flag is read once, before the first phase.
\<close>

datatype stage =
    AnalyzeMeshComplexity | Dedup | Prune | RemoveUnusedUVs | Flatten | Join | Weld
  | MergeByDistance | RemoveDegenerateFaces | DecimateBloatedMeshes
  | Instance | Reorder | Sparse
  | Resample | RemoveStaticTracksWithBake | NormalizeWeights
  | TextureCompress | Simplify | Quantize | Meshopt

definition hasSkins :: "document \<Rightarrow> bool" where
  "hasSkins doc = (0 < length (doc_skins doc))"

definition cleanupTransforms :: "bool \<Rightarrow> stage list" where
  "cleanupTransforms skinned =
     [AnalyzeMeshComplexity, Dedup, Prune, RemoveUnusedUVs]
     @ (if \<not> skinned then [Flatten, Join, Weld] else [])"

definition geometryTransforms :: "bool \<Rightarrow> stage list" where
  "geometryTransforms skinned =
     (if \<not> skinned
      then [MergeByDistance, RemoveDegenerateFaces, Prune, DecimateBloatedMeshes] else [])"

definition splice_at :: "nat \<Rightarrow> 'a list \<Rightarrow> 'a list \<Rightarrow> 'a list" where
  "splice_at k ins xs = take k xs @ ins @ drop k xs"

definition gpuTransforms :: "bool \<Rightarrow> stage list" where
  "gpuTransforms skinned =
     (if \<not> skinned then splice_at 1 [Reorder] [Instance, Sparse] else [Instance, Sparse])"

definition animTransforms :: "bool \<Rightarrow> stage list" where
  "animTransforms skinned =
     [Resample, RemoveStaticTracksWithBake] @ (if skinned then [NormalizeWeights] else [])"

definition simplifyTransforms :: "real option \<Rightarrow> stage list" where
  "simplifyTransforms simplifyRatio =
     (case simplifyRatio of
        None \<Rightarrow> []
      | Some r \<Rightarrow> if r \<noteq> 0 \<and> 0 < r \<and> r < 1 then [Simplify] else [])"

definition compress_transforms :: "bool \<Rightarrow> real option \<Rightarrow> stage list" where
  "compress_transforms skinned simplifyRatio =
     cleanupTransforms skinned @ geometryTransforms skinned @ gpuTransforms skinned
     @ animTransforms skinned @ [TextureCompress] @ [Prune]
     @ simplifyTransforms simplifyRatio"

text \<open>
  \<^verbatim>\<open>transform.meshopt\<close> comes from the document library
  (\<^verbatim>\<open>@gltf-transform/functions\<close>) and is not a leaf: it applies \<^verbatim>\<open>reorder\<close> and
  \<^verbatim>\<open>quantize\<close> to the document, by a \<^verbatim>\<open>document.transform\<close> of its own, and then
  registers the compression extension, which is the stage \<open>Meshopt\<close> here. So
  \<^verbatim>\<open>compressWithMeshopt\<close> runs \<^verbatim>\<open>reorder\<close> and \<^verbatim>\<open>quantize\<close> whatever the skin flag is;
  on a document without skins \<^verbatim>\<open>quantize\<close> runs once more before them.
\<close>

definition meshopt :: "stage list" where
  "meshopt = [Reorder, Quantize, Meshopt]"

definition meshoptTransforms :: "bool \<Rightarrow> stage list" where
  "meshoptTransforms skinned = (if skinned then meshopt else [Quantize] @ meshopt)"

subsection \<open>The final compression\<close>

type_synonym bytes = "nat list"

record compress_result =
  buffer :: bytes
  "method" :: string

text \<open>
  What the \<^verbatim>\<open>gltfpack\<close> subprocess does: the spawn throws (the binary is missing); the
  process exits with a code, and the output file is there or not; or the timer fires and
  kills it, which the awaited exit status reports as non-zero.
\<close>

datatype proc_outcome = SpawnError | Exit int "bytes option" | Killed

datatype preset = Default | Balanced | Aggressive | Max

fun preset_flags :: "preset \<Rightarrow> bool \<Rightarrow> string list" where
  "preset_flags Default True = [''-vp'', ''20'', ''-kn'']"
| "preset_flags Default False = [''-vp'', ''16'']"
| "preset_flags Balanced True =
     [''-vp'', ''20'', ''-kn'', ''-at'', ''14'', ''-ar'', ''10'', ''-as'', ''14'', ''-af'', ''24'']"
| "preset_flags Balanced False =
     [''-vp'', ''16'', ''-at'', ''14'', ''-ar'', ''10'', ''-as'', ''14'', ''-af'', ''24'']"
| "preset_flags Aggressive True =
     [''-vp'', ''20'', ''-kn'', ''-at'', ''12'', ''-ar'', ''8'', ''-as'', ''12'', ''-af'', ''15'']"
| "preset_flags Aggressive False =
     [''-vp'', ''14'', ''-at'', ''12'', ''-ar'', ''8'', ''-as'', ''12'', ''-af'', ''15'']"
| "preset_flags Max skinned =
     [''-cz'', ''-vp'', ''14'', ''-at'', ''12'', ''-ar'', ''8'', ''-as'', ''12'', ''-af'', ''15'',
      ''-si'', ''0.95'', ''-slb'']"

definition gltfpack_args :: "preset \<Rightarrow> bool \<Rightarrow> string list" where
  "gltfpack_args p skinned =
     (let presetFlags = preset_flags p skinned;
          hasCompressFlag = list_ex (\<lambda>f. f = ''-cz'' \<or> f = ''-c'') presetFlags
      in [''gltfpack'', ''-i'', ''clean.glb'', ''-o'', ''compressed.glb'']
         @ (if hasCompressFlag then [] else [''-cc'']) @ [''-tc''] @ presetFlags)"

text \<open>
  The collaborators of \<^verbatim>\<open>compress\<close>: the reader and writer of the document library, its
  transforms, the subprocess, and whether the binary was found at start-up. The temporary
  directory is taken to be created and removed without error, and the in-process codec to
  return a buffer.
\<close>

record environment =
  readBinary :: "bytes \<Rightarrow> document option"
  writeBinary :: "document \<Rightarrow> bytes"
  transform :: "stage \<Rightarrow> document \<Rightarrow> error + document"
  spawn :: "string list \<Rightarrow> bytes \<Rightarrow> proc_outcome"
  hasGltfpack :: bool

definition compressWithGltfpack ::
  "environment \<Rightarrow> bytes \<Rightarrow> bool \<Rightarrow> preset \<Rightarrow> compress_result option" where
  "compressWithGltfpack env cleanBuffer skinned p =
     (case spawn env (gltfpack_args p skinned) cleanBuffer of
        SpawnError \<Rightarrow> None
      | Killed \<Rightarrow> None
      | Exit exitCode out \<Rightarrow>
          if exitCode \<noteq> 0 then None
          else (case out of
                  None \<Rightarrow> None
                | Some b \<Rightarrow> Some \<lparr>buffer = b, method = ''gltfpack''\<rparr>))"

text \<open>
  \<^verbatim>\<open>document.transform\<close> calls its transforms in order on the document and ends at the
  first that throws. The calls are logged, as a spy on the transforms would count them.
\<close>

fun transform_all ::
  "environment \<Rightarrow> stage list \<Rightarrow> document \<Rightarrow> stage list \<Rightarrow> stage list \<times> (error + document)" where
  "transform_all env calls d [] = (calls, Inr d)"
| "transform_all env calls d (s # ss) =
     (case transform env s d of
        Inl e \<Rightarrow> (calls @ [s], Inl e)
      | Inr d' \<Rightarrow> transform_all env (calls @ [s]) d' ss)"

definition compressWithMeshopt ::
  "environment \<Rightarrow> stage list \<Rightarrow> document \<Rightarrow> bool \<Rightarrow> stage list \<times> (error + compress_result)" where
  "compressWithMeshopt env calls doc skinned =
     (case transform_all env calls doc (meshoptTransforms skinned) of
        (calls', Inl e) \<Rightarrow> (calls', Inl e)
      | (calls', Inr doc') \<Rightarrow>
          (calls', Inr \<lparr>buffer = writeBinary env doc', method = ''meshopt''\<rparr>))"

text \<open>
  \<^verbatim>\<open>compress\<close>: the transforms it called, in order, and what it returns or throws.
\<close>

definition compress ::
  "environment \<Rightarrow> bytes \<Rightarrow> real option \<Rightarrow> preset \<Rightarrow> stage list \<times> (error + compress_result)" where
  "compress env input simplifyRatio p =
     (case readBinary env input of
        None \<Rightarrow> ([], Inl ParseError)
      | Some doc \<Rightarrow>
          (let skinned = hasSkins doc
           in case transform_all env [] doc (compress_transforms skinned simplifyRatio) of
                (calls, Inl e) \<Rightarrow> (calls, Inl e)
              | (calls, Inr clean) \<Rightarrow>
                  (case (if hasGltfpack env
                         then compressWithGltfpack env (writeBinary env clean) skinned p
                         else None) of
                     Some result \<Rightarrow> (calls, Inr result)
                   | None \<Rightarrow> compressWithMeshopt env calls clean skinned)))"

subsection \<open>Notions the properties of mergeByDistance are stated with\<close>

text \<open>The key of vertex \<open>i\<close> when its three coordinates are in the array.\<close>

definition cell_of :: "real \<Rightarrow> real list \<Rightarrow> nat \<Rightarrow> cell" where
  "cell_of precision positions i =
     (js_round (positions ! (i * 3) * precision),
      js_round (positions ! (i * 3 + 1) * precision),
      js_round (positions ! (i * 3 + 2) * precision))"

text \<open>The state of the spatial-hash loop after the vertices below \<open>k\<close>.\<close>

definition hash_inv :: "real \<Rightarrow> real list \<Rightarrow> nat \<Rightarrow> hash_state \<Rightarrow> bool" where
  "hash_inv precision positions k st =
     (case st of (vertexMap, remap, newToOld) \<Rightarrow>
        length remap = length positions div 3
      \<and> (\<forall>j < length newToOld. newToOld ! j < k)
      \<and> (\<forall>c j. (vertexMap c = Some j)
            = (j < length newToOld \<and> cell_of precision positions (newToOld ! j) = c))
      \<and> (\<forall>i < k. \<exists>j < length newToOld. remap ! i = j mod 2 ^ 32
            \<and> cell_of precision positions (newToOld ! j) = cell_of precision positions i))"

text \<open>Every index value of the primitive names one of its vertices.\<close>

definition indices_valid :: "accessors \<Rightarrow> primitive \<Rightarrow> bool" where
  "indices_valid accs prim = list_all (index_ok (vertex_count accs prim)) (index_values accs prim)"

text \<open>
  The types glTF gives the two accessors the transform reads: \<^verbatim>\<open>POSITION\<close> is a
  \<^verbatim>\<open>VEC3\<close> accessor, the indices are a \<^verbatim>\<open>SCALAR\<close> accessor.
\<close>

definition position_vec3 :: "accessors \<Rightarrow> primitive \<Rightarrow> bool" where
  "position_vec3 accs prim =
     (case getAttribute accs prim ''POSITION'' of None \<Rightarrow> True | Some (r, a) \<Rightarrow> acc_type a = VEC3)"

definition indices_scalar :: "accessors \<Rightarrow> primitive \<Rightarrow> bool" where
  "indices_scalar accs prim =
     (case getIndices accs prim of None \<Rightarrow> True | Some (r, a) \<Rightarrow> acc_type a = SCALAR)"


text \<open>
  A \<^verbatim>\<open>VEC3\<close> accessor without duplicates: its array holds whole vertices, no two of them
  in the same cell. Accessors of another type count as such.
\<close>

definition tidy :: "real \<Rightarrow> accessor \<Rightarrow> bool" where
  "tidy precision a =
     (acc_type a \<noteq> VEC3
      \<or> (case acc_array a of
            None \<Rightarrow> True
          | Some arr \<Rightarrow>
              length (elems arr) mod 3 = 0
            \<and> distinct (map (cell_of precision (elems arr)) [0 ..< length (elems arr) div 3])))"

text \<open>
  A primitive the transform has nothing to do for: it lacks one of the two accessors or
  arrays, or its positions are without duplicates.
\<close>

definition settled :: "real \<Rightarrow> accessors \<Rightarrow> primitive \<Rightarrow> bool" where
  "settled precision accs prim =
     (case getAttribute accs prim ''POSITION'' of None \<Rightarrow> True | Some (pr, pa) \<Rightarrow>
      case getIndices accs prim of None \<Rightarrow> True | Some (ir, ia) \<Rightarrow>
      case acc_array ia of None \<Rightarrow> True | Some indices \<Rightarrow> tidy precision pa)"

text \<open>Two stores with the same accessors, each of the same type and with or without array.\<close>

definition same_shape :: "accessors \<Rightarrow> accessors \<Rightarrow> bool" where
  "same_shape accs accs' =
     (\<forall>r. map_option (\<lambda>a. (acc_type a, acc_array a = None)) (accs' r)
          = map_option (\<lambda>a. (acc_type a, acc_array a = None)) (accs r))"

subsection \<open>Notions the proofs are stated with\<close>


text \<open>
  The accessors a primitive refers to. A primitive keeps its accessors to itself when its
  semantics and its references are pairwise different and no other primitive of the
  document refers to one of them.
\<close>

definition refs :: "primitive \<Rightarrow> nat set" where
  "refs prim = snd ` set (prim_attributes prim) \<union> set_option (prim_indices prim)"

definition separate_refs :: "primitive \<Rightarrow> bool" where
  "separate_refs prim =
     (distinct (map fst (prim_attributes prim)) \<and> distinct (map snd (prim_attributes prim))
      \<and> (case prim_indices prim of
            None \<Rightarrow> True
          | Some r \<Rightarrow> r \<notin> snd ` set (prim_attributes prim)))"

definition unshared :: "document \<Rightarrow> primitive \<Rightarrow> bool" where
  "unshared doc prim =
     (separate_refs prim
      \<and> list_all (\<lambda>q. q = prim \<or> refs q \<inter> refs prim = {}) (all_primitives doc))"

text \<open>
  A triple the loop keeps: three different indices and an area, as the loop computes it,
  that is not below \<open>minArea\<close>.
\<close>

definition passes :: "real \<Rightarrow> real list \<Rightarrow> real \<times> real \<times> real \<Rightarrow> bool" where
  "passes minArea positions t =
     (case t of (i0, i1, i2) \<Rightarrow>
        i0 \<noteq> i1 \<and> i1 \<noteq> i2 \<and> i0 \<noteq> i2
      \<and> (case tri_area positions i0 i1 i2 of Inl e \<Rightarrow> False | Inr area \<Rightarrow> \<not> area < minArea))"

text \<open>
  An accessor whose array, if it changed, lost whole triples and nothing else.
\<close>

definition thinned :: "accessor option \<Rightarrow> accessor option \<Rightarrow> bool" where
  "thinned a a' =
     (a' = a
      \<or> (\<exists>x old new. a = Some x \<and> acc_array x = Some old \<and> a' = Some (x\<lparr>acc_array := Some new\<rparr>)
            \<and> subseq (triples (elems new)) (triples (elems old))
            \<and> set (elems new) \<subseteq> set (elems old)))"

text \<open>
  A primitive the face loop can read: every index names a vertex, and the index count is a
  multiple of three.
\<close>

definition face_ready :: "accessors \<Rightarrow> primitive \<Rightarrow> bool" where
  "face_ready accs prim =
     (indices_valid accs prim \<and> length (index_values accs prim) mod 3 = 0)"

section \<open>Examples\<close>

text \<open>
  A quad drawn as two triangles; its fourth vertex is a copy of the first. Merging leaves
  three vertices and sends index 3 to index 0.
\<close>

definition tri_positions :: typed_array where
  "tri_positions = \<lparr>kind = Float32, elems = [0, 0, 0, 1, 0, 0, 0, 1, 0, 0, 0, 0]\<rparr>"

definition tri_indices :: typed_array where
  "tri_indices = \<lparr>kind = Uint16, elems = [0, 1, 2, 3, 1, 2]\<rparr>"

definition quad_prim :: primitive where
  "quad_prim = \<lparr>prim_mode = 4, prim_attributes = [(''POSITION'', 0)], prim_indices = Some 1\<rparr>"

definition quad_accessors :: accessors where
  "quad_accessors =
     [0 \<mapsto> \<lparr>acc_type = VEC3, acc_array = Some tri_positions\<rparr>,
      1 \<mapsto> \<lparr>acc_type = SCALAR, acc_array = Some tri_indices\<rparr>]"

definition quad_merged :: accessors where
  "quad_merged =
     [0 \<mapsto> \<lparr>acc_type = VEC3,
            acc_array = Some \<lparr>kind = Float32, elems = [0, 0, 0, 1, 0, 0, 0, 1, 0]\<rparr>\<rparr>,
      1 \<mapsto> \<lparr>acc_type = SCALAR,
            acc_array = Some \<lparr>kind = Uint32, elems = [0, 1, 2, 0, 1, 2]\<rparr>\<rparr>]"

definition quad_doc :: document where
  "quad_doc =
     \<lparr>doc_nodes = [], doc_meshes = [\<lparr>mesh_primitives = [quad_prim], mesh_weights = []\<rparr>],
      doc_accessors = quad_accessors, doc_animations = [], doc_skins = []\<rparr>"

definition quad_doc_merged :: document where
  "quad_doc_merged = quad_doc\<lparr>doc_accessors := quad_merged\<rparr>"

text \<open>
  The same vertex buffer drawn by three primitives of one mesh: the quad, a triangle with
  an index buffer of its own that uses the fourth vertex, and a point cloud without indices.
\<close>

definition back_prim :: primitive where
  "back_prim = \<lparr>prim_mode = 4, prim_attributes = [(''POSITION'', 0)], prim_indices = Some 2\<rparr>"

definition cloud_prim :: primitive where
  "cloud_prim = \<lparr>prim_mode = 0, prim_attributes = [(''POSITION'', 0)], prim_indices = None\<rparr>"

definition multi_accessors :: accessors where
  "multi_accessors =
     [0 \<mapsto> \<lparr>acc_type = VEC3, acc_array = Some tri_positions\<rparr>,
      1 \<mapsto> \<lparr>acc_type = SCALAR, acc_array = Some tri_indices\<rparr>,
      2 \<mapsto> \<lparr>acc_type = SCALAR, acc_array = Some \<lparr>kind = Uint16, elems = [3, 1, 2]\<rparr>\<rparr>]"

definition multi_merged :: accessors where
  "multi_merged =
     [0 \<mapsto> \<lparr>acc_type = VEC3,
            acc_array = Some \<lparr>kind = Float32, elems = [0, 0, 0, 1, 0, 0, 0, 1, 0]\<rparr>\<rparr>,
      1 \<mapsto> \<lparr>acc_type = SCALAR,
            acc_array = Some \<lparr>kind = Uint32, elems = [0, 1, 2, 0, 1, 2]\<rparr>\<rparr>,
      2 \<mapsto> \<lparr>acc_type = SCALAR, acc_array = Some \<lparr>kind = Uint16, elems = [3, 1, 2]\<rparr>\<rparr>]"

definition multi_doc :: document where
  "multi_doc =
     \<lparr>doc_nodes = [],
      doc_meshes = [\<lparr>mesh_primitives = [quad_prim, back_prim, cloud_prim], mesh_weights = []\<rparr>],
      doc_accessors = multi_accessors, doc_animations = [], doc_skins = []\<rparr>"

text \<open>
  Four vertices, the fourth on the line through the first two, and three index triples: a
  proper triangle, a triangle of three vertices on one line, and a triple that repeats an
  index.
\<close>

definition flat_positions :: "real list" where
  "flat_positions = [0, 0, 0, 1, 0, 0, 0, 1, 0, 2, 0, 0]"

definition flat_prim :: primitive where
  "flat_prim = \<lparr>prim_mode = 4, prim_attributes = [(''POSITION'', 0)], prim_indices = Some 1\<rparr>"

definition flat_accessors :: accessors where
  "flat_accessors =
     [0 \<mapsto> \<lparr>acc_type = VEC3, acc_array = Some \<lparr>kind = Float32, elems = flat_positions\<rparr>\<rparr>,
      1 \<mapsto> \<lparr>acc_type = SCALAR,
            acc_array = Some \<lparr>kind = Uint16, elems = [0, 1, 2, 0, 1, 3, 0, 0, 1]\<rparr>\<rparr>]"

definition flat_cleaned :: accessors where
  "flat_cleaned =
     [0 \<mapsto> \<lparr>acc_type = VEC3, acc_array = Some \<lparr>kind = Float32, elems = flat_positions\<rparr>\<rparr>,
      1 \<mapsto> \<lparr>acc_type = SCALAR, acc_array = Some \<lparr>kind = Uint32, elems = [0, 1, 2]\<rparr>\<rparr>]"

definition flat_doc :: document where
  "flat_doc =
     \<lparr>doc_nodes = [], doc_meshes = [\<lparr>mesh_primitives = [flat_prim], mesh_weights = []\<rparr>],
      doc_accessors = flat_accessors, doc_animations = [], doc_skins = []\<rparr>"

text \<open>A triangle primitive without indices whose three vertices lie on one line.\<close>

definition soup_prim :: primitive where
  "soup_prim = \<lparr>prim_mode = 4, prim_attributes = [(''POSITION'', 0)], prim_indices = None\<rparr>"

definition soup_doc :: document where
  "soup_doc =
     \<lparr>doc_nodes = [], doc_meshes = [\<lparr>mesh_primitives = [soup_prim], mesh_weights = []\<rparr>],
      doc_accessors =
        [0 \<mapsto> \<lparr>acc_type = VEC3,
               acc_array = Some \<lparr>kind = Float32, elems = [0, 0, 0, 1, 0, 0, 2, 0, 0]\<rparr>\<rparr>],
      doc_animations = [], doc_skins = []\<rparr>"

text \<open>One vertex with the weights 128/255 and 127/255, stored as normalized bytes.\<close>

definition quantized_prim :: primitive where
  "quantized_prim = \<lparr>prim_mode = 4, prim_attributes = [(''WEIGHTS_0'', 0)], prim_indices = None\<rparr>"

definition quantized_accessors :: accessors where
  "quantized_accessors =
     [0 \<mapsto> \<lparr>acc_type = VEC4, acc_array = Some \<lparr>kind = Uint8, elems = [128, 127, 0, 0]\<rparr>\<rparr>]"

definition quantized_doc :: document where
  "quantized_doc =
     \<lparr>doc_nodes = [], doc_meshes = [\<lparr>mesh_primitives = [quantized_prim], mesh_weights = []\<rparr>],
      doc_accessors = quantized_accessors, doc_animations = [], doc_skins = []\<rparr>"

text \<open>Documents and collaborators for \<^verbatim>\<open>compress\<close>.\<close>

definition empty_doc :: document where
  "empty_doc =
     \<lparr>doc_nodes = [], doc_meshes = [], doc_accessors = Map.empty, doc_animations = [],
      doc_skins = []\<rparr>"

definition skinned_doc :: document where
  "skinned_doc = empty_doc\<lparr>doc_skins := [[0, 1]]\<rparr>"

definition exit1_env :: environment where
  "exit1_env =
     \<lparr>readBinary = (\<lambda>b. Some skinned_doc), writeBinary = (\<lambda>d. [103, 108, 84, 70]),
      transform = (\<lambda>s d. Inr d), spawn = (\<lambda>args b. Exit 1 None), hasGltfpack = True\<rparr>"

text \<open>
  A skinned triangle bound to one joint, read on a machine without the \<^verbatim>\<open>gltfpack\<close>
  binary; the transforms are stand-ins that leave the document as it is.
\<close>

definition rigged_doc :: document where
  "rigged_doc =
     \<lparr>doc_nodes =
        [\<lparr>node_translation = [0, 0, 0], node_rotation = [0, 0, 0, 1], node_scale = [1, 1, 1],
          node_mesh = Some 0\<rparr>],
      doc_meshes =
        [\<lparr>mesh_primitives =
            [\<lparr>prim_mode = 4,
              prim_attributes = [(''POSITION'', 0), (''JOINTS_0'', 1), (''WEIGHTS_0'', 2)],
              prim_indices = Some 3\<rparr>],
          mesh_weights = []\<rparr>],
      doc_accessors =
        [0 \<mapsto> \<lparr>acc_type = VEC3,
               acc_array = Some \<lparr>kind = Float32, elems = [0, 0, 0, 1, 0, 0, 0, 1, 0]\<rparr>\<rparr>,
         1 \<mapsto> \<lparr>acc_type = VEC4,
               acc_array = Some \<lparr>kind = Uint8, elems = [0, 0, 0, 0, 0, 0, 0, 0, 0, 0, 0, 0]\<rparr>\<rparr>,
         2 \<mapsto> \<lparr>acc_type = VEC4,
               acc_array = Some \<lparr>kind = Float32, elems = [1, 0, 0, 0, 1, 0, 0, 0, 1, 0, 0, 0]\<rparr>\<rparr>,
         3 \<mapsto> \<lparr>acc_type = SCALAR, acc_array = Some \<lparr>kind = Uint16, elems = [0, 1, 2]\<rparr>\<rparr>],
      doc_animations = [], doc_skins = [[0]]\<rparr>"

definition bare_env :: environment where
  "bare_env =
     \<lparr>readBinary = (\<lambda>b. Some rigged_doc), writeBinary = (\<lambda>d. [103, 108, 84, 70]),
      transform = (\<lambda>s d. Inr d), spawn = (\<lambda>args b. SpawnError), hasGltfpack = False\<rparr>"

text \<open>
  Two nodes with different rest rotations, and one animation whose two channels share one
  sampler that holds the rest rotation of the first node in both of its keyframes.
\<close>

definition rest_sampler :: sampler where
  "rest_sampler =
     \<lparr>smp_input = Some \<lparr>acc_type = SCALAR, acc_array = Some \<lparr>kind = Float32, elems = [0, 1]\<rparr>\<rparr>,
      smp_output = Some \<lparr>acc_type = VEC4,
          acc_array = Some \<lparr>kind = Float32, elems = [0, 0, 0, 1, 0, 0, 0, 1]\<rparr>\<rparr>\<rparr>"

definition channel_a :: channel where
  "channel_a = \<lparr>ch_sampler = Some 0, ch_targetNode = Some 0, ch_targetPath = Some Rotation\<rparr>"

definition channel_b :: channel where
  "channel_b = \<lparr>ch_sampler = Some 0, ch_targetNode = Some 1, ch_targetPath = Some Rotation\<rparr>"

definition shared_anim :: animation where
  "shared_anim = \<lparr>anim_channels = [channel_a, channel_b], anim_samplers = [0 \<mapsto> rest_sampler]\<rparr>"

definition shared_doc :: document where
  "shared_doc =
     \<lparr>doc_nodes =
        [\<lparr>node_translation = [0, 0, 0], node_rotation = [0, 0, 0, 1], node_scale = [1, 1, 1],
          node_mesh = None\<rparr>,
         \<lparr>node_translation = [0, 0, 0], node_rotation = [1, 0, 0, 0], node_scale = [1, 1, 1],
          node_mesh = None\<rparr>],
      doc_meshes = [], doc_accessors = Map.empty, doc_animations = [shared_anim],
      doc_skins = []\<rparr>"

definition rest_track :: track_info where
  "rest_track = \<lparr>isStatic = True, staticValue = Some [0, 0, 0, 1]\<rparr>"

definition shared_tracks :: "track_key \<Rightarrow> track_info list" where
  "shared_tracks = (\<lambda>key. [])((0, Rotation) := [rest_track], (1, Rotation) := [rest_track])"

text \<open>
  One node at the origin and three animations that each hold its translation at a constant:
  at the origin, a millionth to one side, a millionth to the other.
\<close>

definition hold_anim :: "real \<Rightarrow> animation" where
  "hold_anim x =
     \<lparr>anim_channels =
        [\<lparr>ch_sampler = Some 0, ch_targetNode = Some 0, ch_targetPath = Some Translation\<rparr>],
      anim_samplers =
        [0 \<mapsto> \<lparr>smp_input = Some \<lparr>acc_type = SCALAR,
                     acc_array = Some \<lparr>kind = Float32, elems = [0, 1]\<rparr>\<rparr>,
                 smp_output = Some \<lparr>acc_type = VEC3,
                     acc_array = Some \<lparr>kind = Float32, elems = [x, 0, 0, x, 0, 0]\<rparr>\<rparr>\<rparr>]\<rparr>"

definition drift_doc :: document where
  "drift_doc =
     \<lparr>doc_nodes =
        [\<lparr>node_translation = [0, 0, 0], node_rotation = [0, 0, 0, 1], node_scale = [1, 1, 1],
          node_mesh = None\<rparr>],
      doc_meshes = [], doc_accessors = Map.empty,
      doc_animations = [hold_anim 0, hold_anim (1 / 1000000), hold_anim (- (1 / 1000000))],
      doc_skins = []\<rparr>"

text \<open>
  A node whose mesh has two morph targets, both at rest weight 0, and one animation that
  holds both weights at 0 in its two keyframes. The output accessor of a weights channel is
  a \<^verbatim>\<open>SCALAR\<close> accessor with one value for each target in each keyframe.
\<close>

definition morph_channel :: channel where
  "morph_channel = \<lparr>ch_sampler = Some 0, ch_targetNode = Some 0, ch_targetPath = Some Weights\<rparr>"

definition morph_doc :: document where
  "morph_doc =
     \<lparr>doc_nodes =
        [\<lparr>node_translation = [0, 0, 0], node_rotation = [0, 0, 0, 1], node_scale = [1, 1, 1],
          node_mesh = Some 0\<rparr>],
      doc_meshes = [\<lparr>mesh_primitives = [], mesh_weights = [0, 0]\<rparr>],
      doc_accessors = Map.empty,
      doc_animations =
        [\<lparr>anim_channels = [morph_channel],
          anim_samplers =
            [0 \<mapsto> \<lparr>smp_input = Some \<lparr>acc_type = SCALAR,
                         acc_array = Some \<lparr>kind = Float32, elems = [0, 1]\<rparr>\<rparr>,
                     smp_output = Some \<lparr>acc_type = SCALAR,
                         acc_array = Some \<lparr>kind = Float32, elems = [0, 0, 0, 0]\<rparr>\<rparr>\<rparr>]\<rparr>],
      doc_skins = []\<rparr>"


section \<open>Properties\<close>

lemma js_at_nat: "js_at arr (real i) = (if i < length arr then Inr (arr ! i) else Inl RangeError)"
  by (simp add: js_at_def)

subsection \<open>The calls of compress\<close>

lemma transform_all_result:
  "snd (transform_all env calls d ss) = foldM (\<lambda>d s. transform env s d) d ss"
  by (induction ss arbitrary: calls d) (auto split: sum.splits)

lemma transform_all_calls:
  "set (fst (transform_all env calls d ss)) \<subseteq> set calls \<union> set ss"
proof (induction ss arbitrary: calls d)
  case Nil
  then show ?case by simp
next
  case (Cons s ss)
  show ?case
  proof (cases "transform env s d")
    case (Inl e)
    then show ?thesis by auto
  next
    case (Inr d')
    with Cons [of "calls @ [s]" d'] show ?thesis by auto
  qed
qed

lemma transform_all_done:
  "transform_all env calls d ss = (calls', Inr d') \<Longrightarrow> calls' = calls @ ss"
proof (induction ss arbitrary: calls d)
  case Nil
  then show ?case by simp
next
  case (Cons s ss)
  from Cons.prems obtain d1 where "transform env s d = Inr d1"
    "transform_all env (calls @ [s]) d1 ss = (calls', Inr d')"
    by (auto split: sum.splits)
  from Cons.IH [OF this(2)] show ?case by simp
qed

lemma skinned_plan:
  "MergeByDistance \<notin> set (compress_transforms True r)"
  "RemoveDegenerateFaces \<notin> set (compress_transforms True r)"
  "DecimateBloatedMeshes \<notin> set (compress_transforms True r)"
  "Reorder \<notin> set (compress_transforms True r)"
  by (auto simp: compress_transforms_def cleanupTransforms_def geometryTransforms_def
      gpuTransforms_def animTransforms_def simplifyTransforms_def split: option.splits)

lemma compress_calls:
  assumes "readBinary env input = Some doc"
  shows "set (fst (compress env input r p))
           \<subseteq> set (compress_transforms (hasSkins doc) r) \<union> set (meshoptTransforms (hasSkins doc))"
proof -
  obtain calls res where t: "transform_all env [] doc (compress_transforms (hasSkins doc) r) = (calls, res)"
    by (cases "transform_all env [] doc (compress_transforms (hasSkins doc) r)") auto
  from transform_all_calls [of env "[]" doc "compress_transforms (hasSkins doc) r"] t
  have c: "set calls \<subseteq> set (compress_transforms (hasSkins doc) r)" by simp
  show ?thesis
  proof (cases res)
    case (Inl e)
    with assms t c show ?thesis by (auto simp: compress_def Let_def)
  next
    case (Inr clean)
    obtain calls' res' where m: "transform_all env calls clean (meshoptTransforms (hasSkins doc)) = (calls', res')"
      by (cases "transform_all env calls clean (meshoptTransforms (hasSkins doc))") auto
    from transform_all_calls [of env calls clean "meshoptTransforms (hasSkins doc)"] m
    have "set calls' \<subseteq> set calls \<union> set (meshoptTransforms (hasSkins doc))" by simp
    with c have c': "set calls'
        \<subseteq> set (compress_transforms (hasSkins doc) r) \<union> set (meshoptTransforms (hasSkins doc))"
      by auto
    from assms t Inr m c c' show ?thesis
      by (cases res') (auto simp: compress_def Let_def compressWithMeshopt_def split: option.splits)
  qed
qed

text \<open>
  What holds of the skin flag for every run of \<^verbatim>\<open>compress\<close>: on a skinned document
  \<^verbatim>\<open>mergeByDistance\<close> is never called, \<^verbatim>\<open>normalizeWeights\<close> is called on skinned
  documents only, and a run that returns has called \<^verbatim>\<open>removeStaticTracksWithBake\<close> and
  the texture compression.
\<close>

lemma compress_skin_flag:
  assumes "readBinary env input = Some doc"
  shows "hasSkins doc \<Longrightarrow> MergeByDistance \<notin> set (fst (compress env input r p))"
    and "NormalizeWeights \<in> set (fst (compress env input r p)) \<Longrightarrow> hasSkins doc"
    and "snd (compress env input r p) = Inr result \<Longrightarrow>
         RemoveStaticTracksWithBake \<in> set (fst (compress env input r p))
         \<and> TextureCompress \<in> set (fst (compress env input r p))"
proof -
  note sub = compress_calls [OF assms, of r p]
  show "MergeByDistance \<notin> set (fst (compress env input r p))" if "hasSkins doc"
    using sub that skinned_plan(1) [of r] by (auto simp: meshoptTransforms_def meshopt_def)
  show "hasSkins doc" if "NormalizeWeights \<in> set (fst (compress env input r p))"
  proof (rule ccontr)
    assume "\<not> hasSkins doc"
    with sub that show False
      by (auto simp: meshoptTransforms_def meshopt_def compress_transforms_def
          cleanupTransforms_def geometryTransforms_def gpuTransforms_def animTransforms_def
          simplifyTransforms_def splice_at_def split: option.splits if_splits)
  qed
  show "RemoveStaticTracksWithBake \<in> set (fst (compress env input r p))
         \<and> TextureCompress \<in> set (fst (compress env input r p))"
    if ok: "snd (compress env input r p) = Inr result"
  proof -
    obtain calls res where t: "transform_all env [] doc (compress_transforms (hasSkins doc) r) = (calls, res)"
      by (cases "transform_all env [] doc (compress_transforms (hasSkins doc) r)") auto
    from ok assms t obtain clean where res: "res = Inr clean"
      by (cases res) (auto simp: compress_def Let_def)
    from transform_all_done t res have calls: "calls = compress_transforms (hasSkins doc) r"
      by fastforce
    have in_plan: "RemoveStaticTracksWithBake \<in> set calls" "TextureCompress \<in> set calls"
      unfolding calls by (simp_all add: compress_transforms_def animTransforms_def)
    obtain calls' res' where m: "transform_all env calls clean (meshoptTransforms (hasSkins doc)) = (calls', res')"
      by (cases "transform_all env calls clean (meshoptTransforms (hasSkins doc))") auto
    from ok assms t res m obtain packed where "res' = Inr packed \<or> fst (compress env input r p) = calls"
      by (cases res') (auto simp: compress_def Let_def compressWithMeshopt_def split: option.splits)
    moreover have "fst (compress env input r p) = calls \<or> fst (compress env input r p) = calls'"
      using assms t res m
      by (cases res') (auto simp: compress_def Let_def compressWithMeshopt_def split: option.splits)
    moreover have "set calls \<subseteq> set calls'" if "res' = Inr packed" for packed
      using transform_all_done [of env calls clean "meshoptTransforms (hasSkins doc)" calls' packed] m that
      by auto
    ultimately show ?thesis using in_plan
      by (cases res') (auto simp: compress_def Let_def compressWithMeshopt_def assms t res m
          split: option.splits)
  qed
qed

text \<open>
  C2 fails on the code. On a skinned document \<^verbatim>\<open>compress\<close> leaves \<^verbatim>\<open>reorder\<close> out of
  the GPU phase, but when the \<^verbatim>\<open>gltfpack\<close> binary is missing or fails it hands the document
  to \<^verbatim>\<open>transform.meshopt\<close>, which runs \<^verbatim>\<open>reorder\<close> and \<^verbatim>\<open>quantize\<close> on it: both are
  among the calls of the run on the skinned triangle.
\<close>

theorem compress_skinned_fallback_reorders:
  "hasSkins rigged_doc
   \<and> compress bare_env [] None Default
       = ([AnalyzeMeshComplexity, Dedup, Prune, RemoveUnusedUVs, Instance, Sparse, Resample,
           RemoveStaticTracksWithBake, NormalizeWeights, TextureCompress, Prune,
           Reorder, Quantize, Meshopt],
          Inr \<lparr>buffer = [103, 108, 84, 70], method = ''meshopt''\<rparr>)"
  by (simp add: compress_def bare_env_def compressWithMeshopt_def Let_def hasSkins_def
      compress_transforms_def cleanupTransforms_def geometryTransforms_def rigged_doc_def
      gpuTransforms_def animTransforms_def simplifyTransforms_def meshoptTransforms_def meshopt_def)

text \<open>
  C3, amended. When the document parses, the transforms run through, and the external
  compressor fails (the binary was not found or cannot be spawned, the process is killed by
  the timer, or it exits with a non-zero code), \<^verbatim>\<open>compress\<close> does not throw as long
  as the in-process codec does not: it returns the codec's buffer, and the method field
  is \<^verbatim>\<open>meshopt\<close>.
\<close>

theorem compress_fallback:
  assumes "readBinary env input = Some doc"
    and "foldM (\<lambda>d s. transform env s d) doc (compress_transforms (hasSkins doc) r) = Inr clean"
    and "\<not> hasGltfpack env
         \<or> spawn env (gltfpack_args p (hasSkins doc)) (writeBinary env clean) = SpawnError
         \<or> spawn env (gltfpack_args p (hasSkins doc)) (writeBinary env clean) = Killed
         \<or> (\<exists>c out. spawn env (gltfpack_args p (hasSkins doc)) (writeBinary env clean) = Exit c out
               \<and> c \<noteq> 0)"
    and "foldM (\<lambda>d s. transform env s d) clean (meshoptTransforms (hasSkins doc)) = Inr packed"
  shows "snd (compress env input r p) = Inr \<lparr>buffer = writeBinary env packed, method = ''meshopt''\<rparr>"
proof -
  obtain calls res where t: "transform_all env [] doc (compress_transforms (hasSkins doc) r) = (calls, res)"
    by (cases "transform_all env [] doc (compress_transforms (hasSkins doc) r)") auto
  with transform_all_result [of env "[]" doc "compress_transforms (hasSkins doc) r"] assms(2)
  have res: "res = Inr clean" by simp
  obtain calls' res' where m: "transform_all env calls clean (meshoptTransforms (hasSkins doc)) = (calls', res')"
    by (cases "transform_all env calls clean (meshoptTransforms (hasSkins doc))") auto
  with transform_all_result [of env calls clean "meshoptTransforms (hasSkins doc)"] assms(4)
  have res': "res' = Inr packed" by simp
  from assms(3) have "(if hasGltfpack env
        then compressWithGltfpack env (writeBinary env clean) (hasSkins doc) p else None) = None"
    by (auto simp: compressWithGltfpack_def)
  with assms(1) t res m res' show ?thesis
    by (simp add: compress_def Let_def compressWithMeshopt_def)
qed

theorem compress_fallback_witness:
  "snd (compress exit1_env [] None Default) = Inr \<lparr>buffer = [103, 108, 84, 70], method = ''meshopt''\<rparr>"
proof -
  have 1: "readBinary exit1_env [] = Some skinned_doc" by (simp add: exit1_env_def)
  have 2: "foldM (\<lambda>d s. transform exit1_env s d) skinned_doc (compress_transforms (hasSkins skinned_doc) None) = Inr skinned_doc"
    by (simp add: exit1_env_def compress_transforms_def cleanupTransforms_def geometryTransforms_def hasSkins_def skinned_doc_def empty_doc_def
      gpuTransforms_def animTransforms_def simplifyTransforms_def)
  have 3: "\<not> hasGltfpack exit1_env
         \<or> spawn exit1_env (gltfpack_args Default (hasSkins skinned_doc)) (writeBinary exit1_env skinned_doc) = SpawnError
         \<or> spawn exit1_env (gltfpack_args Default (hasSkins skinned_doc)) (writeBinary exit1_env skinned_doc) = Killed
         \<or> (\<exists>c out. spawn exit1_env (gltfpack_args Default (hasSkins skinned_doc)) (writeBinary exit1_env skinned_doc) = Exit c out
               \<and> c \<noteq> 0)"
    by (simp add: exit1_env_def)
  have 4: "foldM (\<lambda>d s. transform exit1_env s d) skinned_doc (meshoptTransforms (hasSkins skinned_doc)) = Inr skinned_doc"
    by (simp add: exit1_env_def meshoptTransforms_def meshopt_def)
  show ?thesis
    using compress_fallback [OF 1 2 3 4] by (simp add: exit1_env_def)
qed

text \<open>
  C3 as stated asks for the method \<^verbatim>\<open>fallback\<close>. The code names the backend instead:
  with an external process that exits with code 1 the method is neither
  \<^verbatim>\<open>fallback\<close> nor \<^verbatim>\<open>external\<close>.
\<close>

theorem compress_method_counterexample:
  "\<exists>result. snd (compress exit1_env [] None Default) = Inr result
      \<and> method result \<noteq> ''fallback'' \<and> method result \<noteq> ''external''"
  by (simp add: compress_def exit1_env_def compressWithGltfpack_def compressWithMeshopt_def Let_def
      compress_transforms_def cleanupTransforms_def geometryTransforms_def hasSkins_def skinned_doc_def empty_doc_def
      gpuTransforms_def animTransforms_def simplifyTransforms_def meshoptTransforms_def meshopt_def)

subsection \<open>The spatial-hash loop\<close>

lemma foldM_append:
  "foldM f s (xs @ ys) = (case foldM f s xs of Inl e \<Rightarrow> Inl e | Inr s' \<Rightarrow> foldM f s' ys)"
  by (induction xs arbitrary: s) (auto split: sum.splits)

lemma mapM_length: "mapM f xs = Inr ys \<Longrightarrow> length ys = length xs"
  by (induction xs arbitrary: ys) (auto split: sum.splits)

lemma mapM_nth: "mapM f xs = Inr ys \<Longrightarrow> i < length xs \<Longrightarrow> f (xs ! i) = Inr (ys ! i)"
proof (induction xs arbitrary: ys i)
  case Nil
  then show ?case by simp
next
  case (Cons x xs)
  then show ?case
    by (cases i) (auto split: sum.splits)
qed

lemma mapM_total: "(\<And>x. x \<in> set xs \<Longrightarrow> \<exists>y. f x = Inr y) \<Longrightarrow> \<exists>ys. mapM f xs = Inr ys"
proof (induction xs)
  case Nil
  then show ?case by simp
next
  case (Cons x xs)
  then obtain y ys where "f x = Inr y" "mapM f xs = Inr ys"
    by (metis list.set_intros(1) list.set_intros(2))
  then show ?case by simp
qed

lemma vertex_key_ok:
  "i * 3 + 2 < length ps \<Longrightarrow> vertex_key precision ps i = Inr (cell_of precision ps i)"
  unfolding vertex_key_def cell_of_def js_at_nat by simp

lemma vertex_key_err:
  "\<not> i * 3 + 2 < length ps \<Longrightarrow> vertex_key precision ps i = Inl RangeError"
  unfolding vertex_key_def js_at_nat by (auto split: sum.splits)

lemma hash_step_inv:
  assumes inv: "hash_inv precision ps k st" and k: "k * 3 + 2 < length ps"
  shows "\<exists>st'. hash_step precision ps st k = Inr st' \<and> hash_inv precision ps (Suc k) st'"
proof -
  obtain vm remap n2o where st: "st = (vm, remap, n2o)"
    by (cases st) auto
  from inv st have len: "length remap = length ps div 3"
    and below: "\<forall>j < length n2o. n2o ! j < k"
    and vm0: "\<forall>c j. (vm c = Some j) = (j < length n2o \<and> cell_of precision ps (n2o ! j) = c)"
    and rm: "\<forall>i < k. \<exists>j < length n2o. remap ! i = j mod 2 ^ 32
            \<and> cell_of precision ps (n2o ! j) = cell_of precision ps i"
    by (simp_all add: hash_inv_def)
  from vm0 have vm: "\<And>c j. (vm c = Some j) = (j < length n2o \<and> cell_of precision ps (n2o ! j) = c)"
    by blast
  from k len have kl: "k < length remap" by linarith
  let ?key = "cell_of precision ps k"
  show ?thesis
  proof (cases "vm ?key")
    case (Some e)
    with vm [of ?key e] have e: "e < length n2o" "cell_of precision ps (n2o ! e) = ?key" by simp_all
    have step: "hash_step precision ps st k = Inr (vm, remap[k := e mod 2 ^ 32], n2o)"
      using Some k by (simp add: hash_step_def st vertex_key_ok)
    have "hash_inv precision ps (Suc k) (vm, remap[k := e mod 2 ^ 32], n2o)"
      unfolding hash_inv_def
    proof (simp only: prod.case, intro conjI allI impI)
      show "length (remap[k := e mod 2 ^ 32]) = length ps div 3" using len by simp
    next
      fix j assume "j < length n2o" then show "n2o ! j < Suc k" using below by (simp add: less_Suc_eq)
    next
      fix c j show "(vm c = Some j) = (j < length n2o \<and> cell_of precision ps (n2o ! j) = c)"
        by (rule vm)
    next
      fix i assume "i < Suc k"
      show "\<exists>j<length n2o. remap[k := e mod 2 ^ 32] ! i = j mod 2 ^ 32 \<and>
              cell_of precision ps (n2o ! j) = cell_of precision ps i"
      proof (cases "i = k")
        case True
        then show ?thesis using e kl by auto
      next
        case False
        with \<open>i < Suc k\<close> have "i < k" by simp
        with rm False show ?thesis by simp
      qed
    qed
    with step show ?thesis by blast
  next
    case None
    have step: "hash_step precision ps st k
        = Inr (vm(?key \<mapsto> length n2o), remap[k := length n2o mod 2 ^ 32], n2o @ [k])"
      using None k by (simp add: hash_step_def st vertex_key_ok Let_def)
    have fresh: "cell_of precision ps (n2o ! j) \<noteq> ?key" if "j < length n2o" for j
      using None vm [of ?key j] that by auto
    have "hash_inv precision ps (Suc k) (vm(?key \<mapsto> length n2o), remap[k := length n2o mod 2 ^ 32], n2o @ [k])"
      unfolding hash_inv_def
    proof (simp only: prod.case, intro conjI allI impI)
      show "length (remap[k := length n2o mod 2 ^ 32]) = length ps div 3" using len by simp
    next
      fix j assume "j < length (n2o @ [k])"
      then show "(n2o @ [k]) ! j < Suc k" using below by (auto simp: nth_append less_Suc_eq)
    next
      fix c j
      show "((vm(?key \<mapsto> length n2o)) c = Some j)
          = (j < length (n2o @ [k]) \<and> cell_of precision ps ((n2o @ [k]) ! j) = c)"
        using vm [of c j] fresh [of j] by (auto simp: nth_append less_Suc_eq)
    next
      fix i assume i: "i < Suc k"
      show "\<exists>j<length (n2o @ [k]). remap[k := length n2o mod 2 ^ 32] ! i = j mod 2 ^ 32 \<and>
              cell_of precision ps ((n2o @ [k]) ! j) = cell_of precision ps i"
      proof (cases "i = k")
        case True
        then show ?thesis using kl by (intro exI [of _ "length n2o"]) simp
      next
        case False
        with i have "i < k" by simp
        with rm obtain j where "j < length n2o" "remap ! i = j mod 2 ^ 32"
          "cell_of precision ps (n2o ! j) = cell_of precision ps i" by blast
        then show ?thesis using False by (intro exI [of _ j]) (simp add: nth_append)
      qed
    qed
    with step show ?thesis by blast
  qed
qed

lemma hash_loop_inv:
  "k * 3 \<le> length ps \<Longrightarrow>
   \<exists>st. foldM (hash_step precision ps) (Map.empty, replicate (length ps div 3) 0, []) [0 ..< k] = Inr st
      \<and> hash_inv precision ps k st"
proof (induction k)
  case 0
  then show ?case by (simp add: hash_inv_def)
next
  case (Suc k)
  then obtain st where st: "foldM (hash_step precision ps) (Map.empty, replicate (length ps div 3) 0, []) [0 ..< k] = Inr st"
    "hash_inv precision ps k st" by auto
  from Suc.prems have "k * 3 + 2 < length ps" by simp
  from hash_step_inv [OF st(2) this] st(1) show ?case
    by (auto simp: foldM_append)
qed

lemma build_hash_ok:
  assumes "length ps mod 3 = 0"
  shows "\<exists>st. build_hash precision ps = Inr st \<and> hash_inv precision ps (length ps div 3) st"
proof -
  from assms have "loop_count (length ps) 3 = length ps div 3"
    by (auto simp: loop_count_def)
  moreover have "(length ps div 3) * 3 \<le> length ps" by simp
  ultimately show ?thesis
    using hash_loop_inv [of "length ps div 3" ps precision] by (simp add: build_hash_def)
qed

lemma build_hash_err:
  assumes "length ps mod 3 \<noteq> 0"
  shows "build_hash precision ps = Inl RangeError"
proof -
  let ?n = "length ps div 3"
  from assms have lc: "loop_count (length ps) 3 = Suc ?n"
    by (auto simp: loop_count_def) presburger
  have "?n * 3 \<le> length ps" by simp
  from hash_loop_inv [OF this, of precision] obtain st where
    st: "foldM (hash_step precision ps) (Map.empty, replicate ?n 0, []) [0 ..< ?n] = Inr st" by blast
  have "\<not> ?n * 3 + 2 < length ps" by presburger
  then have "hash_step precision ps st ?n = Inl RangeError"
    by (cases st) (simp add: hash_step_def vertex_key_err)
  with st show ?thesis
    by (simp add: build_hash_def lc foldM_append)
qed

lemma hash_inv_bounds:
  assumes "hash_inv precision ps n (vm, remap, n2o)"
  shows "length remap = length ps div 3"
    and "i < n \<Longrightarrow> remap ! i < length n2o"
    and "j < length n2o \<Longrightarrow> n2o ! j < n"
proof -
  from assms show "length remap = length ps div 3" by (simp add: hash_inv_def)
  from assms have rm: "\<forall>i < n. \<exists>j < length n2o. remap ! i = j mod 2 ^ 32
            \<and> cell_of precision ps (n2o ! j) = cell_of precision ps i"
    by (simp add: hash_inv_def)
  show "remap ! i < length n2o" if "i < n"
  proof -
    from rm that obtain j where j: "j < length n2o" "remap ! i = j mod 2 ^ 32" by blast
    have "j mod 2 ^ 32 \<le> j" by (rule mod_less_eq_dividend)
    with j show ?thesis by simp
  qed
  from assms show "n2o ! j < n" if "j < length n2o"
    using that by (simp add: hash_inv_def)
qed

lemma hash_inv_cells:
  assumes "hash_inv precision ps n (vm, remap, n2o)"
  shows "distinct (map (cell_of precision ps) n2o)"
    and "cell_of precision ps ` set n2o = cell_of precision ps ` {..< n}"
proof -
  from assms have below: "\<forall>j < length n2o. n2o ! j < n"
    and vm0: "\<forall>c j. (vm c = Some j) = (j < length n2o \<and> cell_of precision ps (n2o ! j) = c)"
    and rm: "\<forall>i < n. \<exists>j < length n2o. remap ! i = j mod 2 ^ 32
            \<and> cell_of precision ps (n2o ! j) = cell_of precision ps i"
    by (simp_all add: hash_inv_def)
  from vm0 have vm: "\<And>c j. (vm c = Some j) = (j < length n2o \<and> cell_of precision ps (n2o ! j) = c)"
    by blast
  show "distinct (map (cell_of precision ps) n2o)"
  proof (subst distinct_conv_nth, intro allI impI)
    fix a b
    assume a: "a < length (map (cell_of precision ps) n2o)"
      and b: "b < length (map (cell_of precision ps) n2o)" and ab: "a \<noteq> b"
    show "map (cell_of precision ps) n2o ! a \<noteq> map (cell_of precision ps) n2o ! b"
    proof
      assume eq: "map (cell_of precision ps) n2o ! a = map (cell_of precision ps) n2o ! b"
      from a vm [of "cell_of precision ps (n2o ! a)" a]
      have "vm (cell_of precision ps (n2o ! a)) = Some a" by simp
      moreover from b eq a vm [of "cell_of precision ps (n2o ! a)" b]
      have "vm (cell_of precision ps (n2o ! a)) = Some b" by simp
      ultimately show False using ab by simp
    qed
  qed
  show "cell_of precision ps ` set n2o = cell_of precision ps ` {..< n}"
  proof
    show "cell_of precision ps ` set n2o \<subseteq> cell_of precision ps ` {..< n}"
      using below by (auto simp: in_set_conv_nth)
    show "cell_of precision ps ` {..< n} \<subseteq> cell_of precision ps ` set n2o"
    proof
      fix c assume "c \<in> cell_of precision ps ` {..< n}"
      then obtain i where "i < n" "c = cell_of precision ps i" by auto
      with rm obtain j where "j < length n2o" "cell_of precision ps (n2o ! j) = c" by blast
      then show "c \<in> cell_of precision ps ` set n2o"
        by (metis image_eqI nth_mem)
    qed
  qed
qed

lemma hash_inv_length:
  assumes "hash_inv precision ps n (vm, remap, n2o)"
  shows "length n2o = card (cell_of precision ps ` {..< n})"
proof -
  have "length n2o = length (map (cell_of precision ps) n2o)" by simp
  also have "\<dots> = card (set (map (cell_of precision ps) n2o))"
    using hash_inv_cells(1) [OF assms] by (simp only: distinct_card)
  also have "\<dots> = card (cell_of precision ps ` {..< n})"
    using hash_inv_cells(2) [OF assms] by simp
  finally show ?thesis .
qed

lemma hash_inv_le:
  assumes "hash_inv precision ps n (vm, remap, n2o)"
  shows "length n2o \<le> n"
  using hash_inv_length [OF assms] card_image_le [of "{..< n}" "cell_of precision ps"] by simp

lemma hash_inv_inj:
  assumes "hash_inv precision ps n (vm, remap, n2o)"
  shows "(length n2o = n) = inj_on (cell_of precision ps) {..< n}"
  using hash_inv_length [OF assms]
  by (metis card_lessThan eq_card_imp_inj_on finite_lessThan card_image)

lemma build_hash_Inr:
  assumes "build_hash precision ps = Inr (vm, remap, n2o)"
  shows "length ps mod 3 = 0" and "hash_inv precision ps (length ps div 3) (vm, remap, n2o)"
proof -
  show m: "length ps mod 3 = 0"
    using assms build_hash_err [of ps precision] by auto
  from build_hash_ok [OF m, of precision] assms
  show "hash_inv precision ps (length ps div 3) (vm, remap, n2o)" by auto
qed

subsection \<open>Compaction\<close>

lemma gather_indices_length: "length (gather_indices n2o s) = length n2o * s"
  by (induction n2o) (simp_all add: gather_indices_def)

lemma gather_indices_Cons:
  "gather_indices (x # n2o) s = map (\<lambda>j. x * s + j) [0 ..< s] @ gather_indices n2o s"
  by (simp add: gather_indices_def)

lemma gather_indices_nth:
  "j < length n2o \<Longrightarrow> t < s \<Longrightarrow> gather_indices n2o s ! (j * s + t) = n2o ! j * s + t"
proof (induction n2o arbitrary: j)
  case Nil
  then show ?case by simp
next
  case (Cons x n2o)
  show ?case
  proof (cases j)
    case 0
    with Cons.prems show ?thesis
      by (simp add: gather_indices_Cons nth_append)
  next
    case (Suc j')
    with Cons.prems have "j' < length n2o" by simp
    from Cons.IH [OF this Cons.prems(2)] Suc Cons.prems show ?thesis
      by (simp add: gather_indices_Cons nth_append add.assoc)
  qed
qed

lemma gather_indices_bound:
  assumes "\<And>j. j < length n2o \<Longrightarrow> n2o ! j < n" and "k \<in> set (gather_indices n2o s)"
  shows "k < n * s"
proof -
  from assms(2) obtain x where x: "x \<in> set n2o" and k: "k < s + x * s"
    by (auto simp: gather_indices_def)
  from x assms(1) have "x < n" by (auto simp: in_set_conv_nth)
  then have "Suc x \<le> n" by simp
  then have "Suc x * s \<le> n * s" by (rule mult_le_mono1)
  with k show ?thesis by simp
qed

lemma compact_attribute_None:
  "acc_array attr = None \<Longrightarrow> compact_attribute n2o attr = Inr attr"
  by (simp add: compact_attribute_def)

lemma compact_attribute_Some:
  assumes "compact_attribute n2o attr = Inr attr'" and "acc_array attr = Some arr"
  shows "\<exists>vs. attr' = attr\<lparr>acc_array := Some (arr\<lparr>elems := vs\<rparr>)\<rparr>
           \<and> length vs = length n2o * getElementSize attr
           \<and> (\<forall>j < length n2o. \<forall>t < getElementSize attr.
                 vs ! (j * getElementSize attr + t) = elems arr ! (n2o ! j * getElementSize attr + t))"
proof -
  let ?s = "getElementSize attr"
  from assms obtain vs where vs: "mapM (\<lambda>k. js_at (elems arr) (real k)) (gather_indices n2o ?s) = Inr vs"
    and attr': "attr' = attr\<lparr>acc_array := Some (arr\<lparr>elems := vs\<rparr>)\<rparr>"
    by (auto simp: compact_attribute_def split: sum.splits)
  have len: "length vs = length n2o * ?s"
    using mapM_length [OF vs] by (simp add: gather_indices_length)
  have "vs ! (j * ?s + t) = elems arr ! (n2o ! j * ?s + t)" if "j < length n2o" "t < ?s" for j t
  proof -
    from that have "j * ?s + t < length n2o * ?s"
      by (metis add_less_cancel_left less_iff_Suc_add mult_Suc nat_add_left_cancel_less add.commute
          mult_le_mono1 Suc_leI less_le_trans)
    then have "j * ?s + t < length (gather_indices n2o ?s)" by (simp add: gather_indices_length)
    from mapM_nth [OF vs this]
    have "js_at (elems arr) (real (gather_indices n2o ?s ! (j * ?s + t))) = Inr (vs ! (j * ?s + t))" .
    then have "js_at (elems arr) (real (n2o ! j * ?s + t)) = Inr (vs ! (j * ?s + t))"
      using that by (simp only: gather_indices_nth)
    then show ?thesis
      unfolding js_at_nat by (auto split: if_splits)
  qed
  with attr' len show ?thesis by blast
qed

lemma compact_attribute_total:
  assumes "\<And>j. j < length n2o \<Longrightarrow> n2o ! j < n"
    and "case acc_array attr of None \<Rightarrow> True
         | Some arr \<Rightarrow> length (elems arr) = n * getElementSize attr"
  shows "\<exists>attr'. compact_attribute n2o attr = Inr attr'"
proof (cases "acc_array attr")
  case None
  then show ?thesis by (simp add: compact_attribute_def)
next
  case (Some arr)
  with assms(2) have len: "length (elems arr) = n * getElementSize attr" by simp
  have "\<exists>y. js_at (elems arr) (real k) = Inr y" if "k \<in> set (gather_indices n2o (getElementSize attr))" for k
    using gather_indices_bound [OF assms(1) that] len by (simp add: js_at_nat)
  from mapM_total [of "gather_indices n2o (getElementSize attr)" "\<lambda>k. js_at (elems arr) (real k)", OF this]
  show ?thesis using Some by (auto simp: compact_attribute_def)
qed

lemma compact_attribute_shape:
  assumes "compact_attribute n2o attr = Inr attr'"
  shows "acc_type attr' = acc_type attr" and "(acc_array attr' = None) = (acc_array attr = None)"
  using assms by (auto simp: compact_attribute_def split: option.splits sum.splits)

lemma compact_attribute_range:
  assumes "compact_attribute n2o attr = Inr attr'" and "acc_array attr = Some arr"
    and "j < length n2o" and "t < getElementSize attr"
  shows "n2o ! j * getElementSize attr + t < length (elems arr)"
proof -
  let ?s = "getElementSize attr"
  from assms(1,2) obtain vs where vs: "mapM (\<lambda>k. js_at (elems arr) (real k)) (gather_indices n2o ?s) = Inr vs"
    by (auto simp: compact_attribute_def split: sum.splits)
  from assms(3,4) have "j * ?s + t < length n2o * ?s"
    by (metis add_less_cancel_left less_iff_Suc_add mult_Suc nat_add_left_cancel_less add.commute
        mult_le_mono1 Suc_leI less_le_trans)
  then have "j * ?s + t < length (gather_indices n2o ?s)" by (simp add: gather_indices_length)
  from mapM_nth [OF vs this]
  have "js_at (elems arr) (real (gather_indices n2o ?s ! (j * ?s + t))) = Inr (vs ! (j * ?s + t))" .
  then have "js_at (elems arr) (real (n2o ! j * ?s + t)) = Inr (vs ! (j * ?s + t))"
    using assms(3,4) by (simp only: gather_indices_nth)
  then show ?thesis
    unfolding js_at_nat by (auto split: if_splits)
qed

text \<open>Compacting a \<^verbatim>\<open>VEC3\<close> accessor keeps the vertices named by \<open>newToOld\<close>, in that order.\<close>

lemma compact_cells:
  assumes c: "compact_attribute n2o a = Inr a'" and t: "acc_type a = VEC3"
    and arr: "acc_array a = Some arr"
  shows "\<exists>vs. a' = a\<lparr>acc_array := Some (arr\<lparr>elems := vs\<rparr>)\<rparr> \<and> length vs = length n2o * 3
           \<and> map (cell_of precision vs) [0 ..< length n2o] = map (cell_of precision (elems arr)) n2o
           \<and> (\<forall>j < length n2o. n2o ! j < length (elems arr) div 3)"
proof -
  from t have s: "getElementSize a = 3" by (simp add: getElementSize_def)
  from compact_attribute_Some [OF c arr] s obtain vs where
    vs: "a' = a\<lparr>acc_array := Some (arr\<lparr>elems := vs\<rparr>)\<rparr>" "length vs = length n2o * 3"
      "\<forall>j < length n2o. \<forall>t < 3. vs ! (j * 3 + t) = elems arr ! (n2o ! j * 3 + t)"
    by auto
  have cells: "cell_of precision vs j = cell_of precision (elems arr) (n2o ! j)" if "j < length n2o" for j
  proof -
    from vs(3) that have r: "vs ! (j * 3 + t) = elems arr ! (n2o ! j * 3 + t)" if "t < 3" for t
      using that by blast
    from r [of 0] r [of 1] r [of 2] show ?thesis by (simp add: cell_of_def)
  qed
  have "map (cell_of precision vs) [0 ..< length n2o] = map (cell_of precision (elems arr)) n2o"
    by (rule nth_equalityI) (simp_all add: cells)
  moreover have "n2o ! j < length (elems arr) div 3" if "j < length n2o" for j
  proof -
    from compact_attribute_range [OF c arr that, of 2] s
    have "n2o ! j * 3 + 2 < length (elems arr)" by simp
    then show ?thesis by presburger
  qed
  ultimately show ?thesis using vs(1,2) by blast
qed




text \<open>On positions without duplicates the hash loop keeps every vertex.\<close>

lemma tidy_hash:
  assumes m: "length ps mod 3 = 0"
    and d: "distinct (map (cell_of precision ps) [0 ..< length ps div 3])"
  shows "\<exists>vm remap n2o. build_hash precision ps = Inr (vm, remap, n2o)
           \<and> real (length ps) / 3 - real (length n2o) = 0"
proof -
  let ?n = "length ps div 3"
  from build_hash_ok [OF m, of precision] obtain vm remap n2o where
    bh: "build_hash precision ps = Inr (vm, remap, n2o)"
    and inv: "hash_inv precision ps ?n (vm, remap, n2o)"
    by (metis prod_cases3)
  from d have "inj_on (cell_of precision ps) {..< ?n}"
    by (simp add: distinct_map lessThan_atLeast0)
  with hash_inv_inj [OF inv] have "length n2o = ?n" by simp
  moreover from m have "real (length ps) / 3 = real ?n"
    by (metis real_of_nat_div dvd_eq_mod_eq_0 of_nat_numeral)
  ultimately show ?thesis using bh by simp
qed

subsection \<open>References and the store\<close>

lemma getAttribute_Some:
  "(getAttribute accs prim semantic = Some (r, a))
     = (map_of (prim_attributes prim) semantic = Some r \<and> accs r = Some a)"
  by (auto simp: getAttribute_def split: option.splits)

lemma getIndices_Some:
  "(getIndices accs prim = Some (r, a)) = (prim_indices prim = Some r \<and> accs r = Some a)"
  by (auto simp: getIndices_def split: option.splits)

lemma setArray_apply:
  "setArray r arr accs r' = (if r' = r then map_option (\<lambda>a. a\<lparr>acc_array := Some arr\<rparr>) (accs r) else accs r')"
  by (simp add: setArray_def split: option.splits)

lemma same_shape_refl: "same_shape accs accs"
  by (simp add: same_shape_def)

lemma same_shape_trans: "same_shape a b \<Longrightarrow> same_shape b c \<Longrightarrow> same_shape a c"
  by (simp add: same_shape_def)

lemma same_shape_upd:
  assumes "accs r = Some a" and "acc_type a' = acc_type a"
    and "(acc_array a' = None) = (acc_array a = None)"
  shows "same_shape accs (accs(r \<mapsto> a'))"
  using assms by (simp add: same_shape_def)

lemma same_shape_Some:
  assumes "same_shape accs accs'" and "accs r = Some a"
  shows "\<exists>a'. accs' r = Some a' \<and> acc_type a' = acc_type a
           \<and> (acc_array a' = None) = (acc_array a = None)"
proof -
  from assms(1) have "map_option (\<lambda>a. (acc_type a, acc_array a = None)) (accs' r)
      = map_option (\<lambda>a. (acc_type a, acc_array a = None)) (accs r)"
    by (simp add: same_shape_def)
  with assms(2) show ?thesis by (cases "accs' r") auto
qed

lemma same_shape_None:
  assumes "same_shape accs accs'"
  shows "(accs' r = None) = (accs r = None)"
proof -
  from assms have "map_option (\<lambda>a. (acc_type a, acc_array a = None)) (accs' r)
      = map_option (\<lambda>a. (acc_type a, acc_array a = None)) (accs r)"
    by (simp add: same_shape_def)
  then show ?thesis by (cases "accs' r"; cases "accs r") auto
qed


lemma same_shape_setArray:
  assumes "accs r = Some a" and "acc_array a \<noteq> None"
  shows "same_shape accs (setArray r arr accs)"
  using assms by (simp add: same_shape_def setArray_apply)

lemma same_shape_typed:
  assumes "same_shape accs accs'"
  shows "position_vec3 accs' prim = position_vec3 accs prim"
    and "indices_scalar accs' prim = indices_scalar accs prim"
proof -
  show "position_vec3 accs' prim = position_vec3 accs prim"
  proof (cases "map_of (prim_attributes prim) ''POSITION''")
    case None
    then show ?thesis by (simp add: position_vec3_def getAttribute_def)
  next
    case (Some r)
    show ?thesis
    proof (cases "accs r")
      case None
      with same_shape_None [OF assms, of r] Some show ?thesis
        by (simp add: position_vec3_def getAttribute_def)
    next
      case a: (Some a)
      from same_shape_Some [OF assms a] Some a show ?thesis
        by (auto simp: position_vec3_def getAttribute_def)
    qed
  qed
  show "indices_scalar accs' prim = indices_scalar accs prim"
  proof (cases "prim_indices prim")
    case None
    then show ?thesis by (simp add: indices_scalar_def getIndices_def)
  next
    case (Some r)
    show ?thesis
    proof (cases "accs r")
      case None
      with same_shape_None [OF assms, of r] Some show ?thesis
        by (simp add: indices_scalar_def getIndices_def)
    next
      case a: (Some a)
      from same_shape_Some [OF assms a] Some a show ?thesis
        by (auto simp: indices_scalar_def getIndices_def)
    qed
  qed
qed

subsection \<open>The loop over the semantics\<close>

lemma compact_fold_induct:
  assumes f: "foldM (compact_semantic n2o prim) accs sems = Inr accs'"
    and base: "P accs"
    and step: "\<And>x r a a'. P x \<Longrightarrow> x r = Some a \<Longrightarrow> compact_attribute n2o a = Inr a'
                 \<Longrightarrow> P (x(r \<mapsto> a'))"
  shows "P accs'"
  using f base
proof (induction sems arbitrary: accs)
  case Nil
  then show ?case by simp
next
  case (Cons s sems)
  from Cons.prems(1) obtain mid where
    one: "compact_semantic n2o prim accs s = Inr mid"
    and rest: "foldM (compact_semantic n2o prim) mid sems = Inr accs'"
    by (auto split: sum.splits)
  have "P mid"
  proof (cases "getAttribute accs prim s")
    case None
    with one Cons.prems(2) show ?thesis by (simp add: compact_semantic_def)
  next
    case (Some ra)
    obtain r a where ra: "ra = (r, a)" by (cases ra) auto
    with Some have a: "accs r = Some a" by (simp add: getAttribute_Some)
    from one Some ra obtain a' where "compact_attribute n2o a = Inr a'" "mid = accs(r \<mapsto> a')"
      by (auto simp: compact_semantic_def split: sum.splits)
    with step [OF Cons.prems(2) a] show ?thesis by simp
  qed
  from Cons.IH [OF rest this] show ?case .
qed

lemma compact_fold_shape:
  assumes "foldM (compact_semantic n2o prim) accs sems = Inr accs'"
  shows "same_shape accs accs'"
proof (rule compact_fold_induct [OF assms, where P = "same_shape accs"])
  show "same_shape accs accs" by (rule same_shape_refl)
next
  fix x r a a'
  assume x: "same_shape accs x" and a: "x r = Some a" and c: "compact_attribute n2o a = Inr a'"
  have "same_shape x (x(r \<mapsto> a'))"
    using a compact_attribute_shape [OF c] by (simp add: same_shape_def)
  with x show "same_shape accs (x(r \<mapsto> a'))" by (rule same_shape_trans)
qed





subsection \<open>What mergeByDistance does for one primitive\<close>

lemma merge_prim_skip:
  "getAttribute accs prim ''POSITION'' = None \<or> getIndices accs prim = None
      \<or> (\<exists>r a. getAttribute accs prim ''POSITION'' = Some (r, a) \<and> acc_array a = None)
      \<or> (\<exists>r a. getIndices accs prim = Some (r, a) \<and> acc_array a = None)
   \<Longrightarrow> mergeByDistance_prim tolerance accs prim = Inr accs"
  by (auto simp: mergeByDistance_prim_def split: option.splits)

lemma merge_prim_cases:
  assumes m: "mergeByDistance_prim tolerance accs prim = Inr accs'"
    and pa: "getAttribute accs prim ''POSITION'' = Some (pr, pa)" and ps: "acc_array pa = Some positions"
    and ia: "getIndices accs prim = Some (ir, ia)" and ix: "acc_array ia = Some indices"
  obtains (same) vm remap n2o where
      "build_hash (1 / tolerance) (elems positions) = Inr (vm, remap, n2o)"
      "length n2o = length (elems positions) div 3" "accs' = accs"
  | (rewritten) vm remap n2o newIndices mid where
      "build_hash (1 / tolerance) (elems positions) = Inr (vm, remap, n2o)"
      "length n2o \<noteq> length (elems positions) div 3"
      "mapM (js_at remap) (elems indices) = Inr newIndices"
      "foldM (compact_semantic n2o prim) accs (listSemantics prim) = Inr mid"
      "accs' = setArray ir \<lparr>kind = Uint32, elems = map real newIndices\<rparr> mid"
proof -
  from m pa ps ia ix obtain vm remap n2o where
    bh: "build_hash (1 / tolerance) (elems positions) = Inr (vm, remap, n2o)"
    by (auto simp: mergeByDistance_prim_def split: sum.splits)
  from build_hash_Inr(1) [OF bh] have mod3: "length (elems positions) mod 3 = 0" .
  then have eq: "(real (length (elems positions)) / 3 - real (length n2o) = 0)
      = (length n2o = length (elems positions) div 3)"
    by (metis real_of_nat_div dvd_eq_mod_eq_0 of_nat_numeral of_nat_eq_iff right_minus_eq)
  show thesis
  proof (cases "length n2o = length (elems positions) div 3")
    case True
    with m pa ps ia ix bh eq have "accs' = accs"
      by (simp add: mergeByDistance_prim_def)
    with bh True show thesis by (rule same)
  next
    case False
    with m pa ps ia ix bh eq obtain newIndices mid where
      "mapM (js_at remap) (elems indices) = Inr newIndices"
      "foldM (compact_semantic n2o prim) accs (listSemantics prim) = Inr mid"
      "accs' = setArray ir \<lparr>kind = Uint32, elems = map real newIndices\<rparr> mid"
      by (auto simp: mergeByDistance_prim_def split: sum.splits)
    with bh False show thesis by (rule rewritten)
  qed
qed

lemma merge_prim_shape:
  assumes "mergeByDistance_prim tolerance accs prim = Inr accs'"
  shows "same_shape accs accs'"
proof (cases "getAttribute accs prim ''POSITION'' = None \<or> getIndices accs prim = None
      \<or> (\<exists>r a. getAttribute accs prim ''POSITION'' = Some (r, a) \<and> acc_array a = None)
      \<or> (\<exists>r a. getIndices accs prim = Some (r, a) \<and> acc_array a = None)")
  case True
  from merge_prim_skip [OF this, of tolerance] assms show ?thesis
    by (simp add: same_shape_refl)
next
  case False
  then obtain pr pa positions ir ia indices where
    pa: "getAttribute accs prim ''POSITION'' = Some (pr, pa)" and ps: "acc_array pa = Some positions"
    and ia: "getIndices accs prim = Some (ir, ia)" and ix: "acc_array ia = Some indices"
    by auto
  from assms pa ps ia ix show ?thesis
  proof (cases rule: merge_prim_cases)
    case (same vm remap n2o)
    then show ?thesis by (simp add: same_shape_refl)
  next
    case (rewritten vm remap n2o newIndices mid)
    from ia have "accs ir = Some ia" by (simp add: getIndices_Some)
    from same_shape_Some [OF compact_fold_shape [OF rewritten(4)] this] ix
    obtain x where x: "mid ir = Some x" "acc_array x \<noteq> None" by auto
    from same_shape_setArray [where accs = mid and r = ir, OF x] rewritten(5)
    have "same_shape mid accs'" by simp
    with compact_fold_shape [OF rewritten(4)] show ?thesis by (rule same_shape_trans)
  qed
qed



lemma settled_noop:
  assumes s: "settled (1 / tolerance) accs prim" and vec3: "position_vec3 accs prim"
  shows "mergeByDistance_prim tolerance accs prim = Inr accs"
proof (cases "getAttribute accs prim ''POSITION'' = None \<or> getIndices accs prim = None
      \<or> (\<exists>r a. getAttribute accs prim ''POSITION'' = Some (r, a) \<and> acc_array a = None)
      \<or> (\<exists>r a. getIndices accs prim = Some (r, a) \<and> acc_array a = None)")
  case True
  then show ?thesis by (rule merge_prim_skip)
next
  case False
  then obtain pr pa positions ir ia indices where
    pa: "getAttribute accs prim ''POSITION'' = Some (pr, pa)" and ps: "acc_array pa = Some positions"
    and ia: "getIndices accs prim = Some (ir, ia)" and ix: "acc_array ia = Some indices"
    by auto
  from s pa ia ix have "tidy (1 / tolerance) pa" by (simp add: settled_def)
  moreover from vec3 pa have "acc_type pa = VEC3" by (simp add: position_vec3_def)
  ultimately have "length (elems positions) mod 3 = 0"
    "distinct (map (cell_of (1 / tolerance) (elems positions)) [0 ..< length (elems positions) div 3])"
    using ps by (simp_all add: tidy_def)
  from tidy_hash [OF this] pa ps ia ix show ?thesis
    by (auto simp: mergeByDistance_prim_def)
qed


subsection \<open>The loop over the primitives\<close>

lemma foldM_concat:
  "foldM (\<lambda>s x. foldM f s (g x)) s xs = foldM f s (concat (map g xs))"
  by (induction xs arbitrary: s) (auto simp: foldM_append split: sum.splits)




lemma mergeByDistance_flat:
  "mergeByDistance tolerance doc =
     (case foldM (mergeByDistance_prim tolerance) (doc_accessors doc) (all_primitives doc) of
        Inl e \<Rightarrow> Inl e
      | Inr accs \<Rightarrow> Inr (doc\<lparr>doc_accessors := accs\<rparr>))"
proof -
  have "foldM (mergeByDistance_mesh tolerance) (doc_accessors doc) (doc_meshes doc)
      = foldM (mergeByDistance_prim tolerance) (doc_accessors doc) (all_primitives doc)"
    unfolding all_primitives_def
    using foldM_concat [of "mergeByDistance_prim tolerance" mesh_primitives "doc_accessors doc" "doc_meshes doc"]
    by (simp add: mergeByDistance_mesh_def [abs_def])
  then show ?thesis by (simp add: mergeByDistance_def)
qed

subsection \<open>Evaluating the examples\<close>

lemma upt_4: "[0..<4] = [0, 1, 2, 3]" by (simp add: upt_rec)

lemma upt_3: "[0..<3] = [0, 1, 2]" by (simp add: upt_rec)

lemma rep_4: "replicate 4 (0::nat) = [0, 0, 0, 0]" by (simp add: numeral_eq_Suc)

lemma list_update_numeral: "(x # xs)[numeral k := v] = x # xs[pred_numeral k := v]"
  by (simp add: numeral_eq_Suc)

lemma quad_hash:
  "\<exists>vm. build_hash 10000 (elems tri_positions) = Inr (vm, [0, 1, 2, 0], [0, 1, 2])"
  by (simp add: build_hash_def tri_positions_def loop_count_def hash_step_def vertex_key_def
      js_at_def js_round_def upt_4 rep_4 list_update_numeral)

lemma quad_compact:
  "compact_attribute [0, 1, 2] \<lparr>acc_type = VEC3, acc_array = Some tri_positions\<rparr>
     = Inr \<lparr>acc_type = VEC3,
            acc_array = Some \<lparr>kind = Float32, elems = [0, 0, 0, 1, 0, 0, 0, 1, 0]\<rparr>\<rparr>"
  by (simp add: compact_attribute_def gather_indices_def getElementSize_def tri_positions_def
      js_at_def upt_3)

lemma quad_remap:
  "mapM (js_at [0, 1, 2, 0::nat]) (elems tri_indices) = Inr [0, 1, 2, 0, 1, 2]"
  by (simp add: tri_indices_def js_at_def)

lemma merge_prim_rewrite:
  assumes "getAttribute accs prim ''POSITION'' = Some (pr, pa)" and "acc_array pa = Some positions"
    and "getIndices accs prim = Some (ir, ia)" and "acc_array ia = Some indices"
    and "build_hash (1 / tolerance) (elems positions) = Inr (vm, remap, n2o)"
    and "length n2o \<noteq> length (elems positions) div 3"
    and "mapM (js_at remap) (elems indices) = Inr newIndices"
    and "foldM (compact_semantic n2o prim) accs (listSemantics prim) = Inr mid"
  shows "mergeByDistance_prim tolerance accs prim
           = Inr (setArray ir \<lparr>kind = Uint32, elems = map real newIndices\<rparr> mid)"
proof -
  from build_hash_Inr(1) [OF assms(5)] have "length (elems positions) mod 3 = 0" .
  then have "(real (length (elems positions)) / 3 - real (length n2o) = 0)
      = (length n2o = length (elems positions) div 3)"
    by (metis real_of_nat_div dvd_eq_mod_eq_0 of_nat_numeral of_nat_eq_iff right_minus_eq)
  with assms show ?thesis by (simp add: mergeByDistance_prim_def)
qed

lemma quad_fold:
  "foldM (compact_semantic [0, 1, 2] quad_prim) accs [''POSITION'']
     = (case accs 0 of
          None \<Rightarrow> Inr accs
        | Some a \<Rightarrow> (case compact_attribute [0, 1, 2] a of
                       Inl e \<Rightarrow> Inl e
                     | Inr a' \<Rightarrow> Inr (accs(0 \<mapsto> a'))))"
  by (simp add: compact_semantic_def getAttribute_def quad_prim_def split: option.splits sum.splits)

lemma merge_quad: "mergeByDistance_prim (1 / 10000) quad_accessors quad_prim = Inr quad_merged"
proof -
  from quad_hash obtain vm where
    h: "build_hash (1 / (1 / 10000)) (elems tri_positions) = Inr (vm, [0, 1, 2, 0], [0, 1, 2])"
    by auto
  have p: "getAttribute quad_accessors quad_prim ''POSITION''
      = Some (0, \<lparr>acc_type = VEC3, acc_array = Some tri_positions\<rparr>)"
    by (simp add: getAttribute_def quad_prim_def quad_accessors_def)
  have i: "getIndices quad_accessors quad_prim
      = Some (1, \<lparr>acc_type = SCALAR, acc_array = Some tri_indices\<rparr>)"
    by (simp add: getIndices_def quad_prim_def quad_accessors_def)
  have l: "length [0, 1, 2::nat] \<noteq> length (elems tri_positions) div 3"
    by (simp add: tri_positions_def)
  have f: "foldM (compact_semantic [0, 1, 2] quad_prim) quad_accessors (listSemantics quad_prim)
      = Inr (quad_accessors(0 \<mapsto> \<lparr>acc_type = VEC3,
            acc_array = Some \<lparr>kind = Float32, elems = [0, 0, 0, 1, 0, 0, 0, 1, 0]\<rparr>\<rparr>))"
  proof -
    have s: "listSemantics quad_prim = [''POSITION'']"
      by (simp add: listSemantics_def quad_prim_def)
    have q: "quad_accessors 0 = Some \<lparr>acc_type = VEC3, acc_array = Some tri_positions\<rparr>"
      by (simp add: quad_accessors_def)
    show ?thesis
      by (simp only: s quad_fold q quad_compact option.case sum.case)
  qed
  have "setArray 1 \<lparr>kind = Uint32, elems = map real [0, 1, 2, 0, 1, 2]\<rparr>
          (quad_accessors(0 \<mapsto> \<lparr>acc_type = VEC3,
            acc_array = Some \<lparr>kind = Float32, elems = [0, 0, 0, 1, 0, 0, 0, 1, 0]\<rparr>\<rparr>))
        = quad_merged"
    by (simp add: setArray_def quad_accessors_def quad_merged_def fun_eq_iff)
  with merge_prim_rewrite [OF p _ i _ h l quad_remap f] show ?thesis by simp
qed

lemma merge_quad_doc: "mergeByDistance (1 / 10000) quad_doc = Inr quad_doc_merged"
  by (simp add: mergeByDistance_flat all_primitives_def quad_doc_def quad_doc_merged_def merge_quad)

lemma merged_tidy:
  "tidy 10000 \<lparr>acc_type = VEC3,
       acc_array = Some \<lparr>kind = Float32, elems = [0, 0, 0, 1, 0, 0, 0, 1, 0]\<rparr>\<rparr>"
  by (simp add: tidy_def upt_3 cell_of_def js_round_def)

lemma merge_multi_front:
  "mergeByDistance_prim (1 / 10000) multi_accessors quad_prim = Inr multi_merged"
proof -
  from quad_hash obtain vm where
    h: "build_hash (1 / (1 / 10000)) (elems tri_positions) = Inr (vm, [0, 1, 2, 0], [0, 1, 2])"
    by auto
  have p: "getAttribute multi_accessors quad_prim ''POSITION''
      = Some (0, \<lparr>acc_type = VEC3, acc_array = Some tri_positions\<rparr>)"
    by (simp add: getAttribute_def quad_prim_def multi_accessors_def)
  have i: "getIndices multi_accessors quad_prim
      = Some (1, \<lparr>acc_type = SCALAR, acc_array = Some tri_indices\<rparr>)"
    by (simp add: getIndices_def quad_prim_def multi_accessors_def)
  have l: "length [0, 1, 2::nat] \<noteq> length (elems tri_positions) div 3"
    by (simp add: tri_positions_def)
  have f: "foldM (compact_semantic [0, 1, 2] quad_prim) multi_accessors (listSemantics quad_prim)
      = Inr (multi_accessors(0 \<mapsto> \<lparr>acc_type = VEC3,
            acc_array = Some \<lparr>kind = Float32, elems = [0, 0, 0, 1, 0, 0, 0, 1, 0]\<rparr>\<rparr>))"
  proof -
    have s: "listSemantics quad_prim = [''POSITION'']"
      by (simp add: listSemantics_def quad_prim_def)
    have q: "multi_accessors 0 = Some \<lparr>acc_type = VEC3, acc_array = Some tri_positions\<rparr>"
      by (simp add: multi_accessors_def)
    show ?thesis
      by (simp only: s quad_fold q quad_compact option.case sum.case)
  qed
  have "setArray 1 \<lparr>kind = Uint32, elems = map real [0, 1, 2, 0, 1, 2]\<rparr>
          (multi_accessors(0 \<mapsto> \<lparr>acc_type = VEC3,
            acc_array = Some \<lparr>kind = Float32, elems = [0, 0, 0, 1, 0, 0, 0, 1, 0]\<rparr>\<rparr>))
        = multi_merged"
    by (simp add: setArray_def multi_accessors_def multi_merged_def fun_eq_iff)
  with merge_prim_rewrite [OF p _ i _ h l quad_remap f] show ?thesis by simp
qed

lemma merge_multi_back:
  "mergeByDistance_prim (1 / 10000) multi_merged back_prim = Inr multi_merged"
proof (rule settled_noop)
  show "settled (1 / (1 / 10000)) multi_merged back_prim"
    using merged_tidy
    by (simp add: settled_def getAttribute_def getIndices_def back_prim_def multi_merged_def)
  show "position_vec3 multi_merged back_prim"
    by (simp add: position_vec3_def getAttribute_def back_prim_def multi_merged_def)
qed

lemma merge_multi_cloud:
  "mergeByDistance_prim (1 / 10000) multi_merged cloud_prim = Inr multi_merged"
  by (rule merge_prim_skip) (simp add: getIndices_def cloud_prim_def)

lemma merge_multi_doc:
  "mergeByDistance (1 / 10000) multi_doc = Inr (multi_doc\<lparr>doc_accessors := multi_merged\<rparr>)"
  by (simp add: mergeByDistance_flat all_primitives_def multi_doc_def merge_multi_front
      merge_multi_back merge_multi_cloud)

subsection \<open>Claims about mergeByDistance\<close>




subsection \<open>The loop of removeDegenerateFaces\<close>

lemma triples_append:
  "length xs mod 3 = 0 \<Longrightarrow> triples (xs @ [a, b, c]) = triples xs @ [(a, b, c)]"
  by (induction xs rule: triples.induct) simp_all

lemma coerce_uint32_id: "is_uint32 v \<Longrightarrow> coerce Uint32 v = v"
proof -
  assume a: "is_uint32 v"
  then have v: "v = real_of_int \<lfloor>v\<rfloor>" "0 \<le> v" "v < 2 ^ 32" by (simp_all add: is_uint32_def)
  from v(2) have f0: "0 \<le> \<lfloor>v\<rfloor>" by simp
  from v(1,3) have "real_of_int \<lfloor>v\<rfloor> < 2 ^ 32" by simp
  then have "\<lfloor>v\<rfloor> < 2 ^ 32" using floor_less_iff [of v "2 ^ 32"] v(3) by simp
  with f0 have "\<lfloor>v\<rfloor> mod 2 ^ 32 = \<lfloor>v\<rfloor>" by simp
  with v show ?thesis by (simp add: to_uint_def js_trunc_def)
qed

lemma face_step_Inr:
  assumes "face_step minArea ps idx valid i = Inr valid'"
  shows "i + 2 < length idx" and
    "valid' = valid \<or> (valid' = valid @ [idx ! i, idx ! (i + 1), idx ! (i + 2)]
        \<and> passes minArea ps (idx ! i, idx ! (i + 1), idx ! (i + 2)))"
  using assms unfolding face_step_def js_at_nat passes_def
  by (auto split: if_splits sum.splits)

lemma take_triple:
  "k * 3 + 2 < length idx \<Longrightarrow>
   take (Suc k * 3) idx = take (k * 3) idx @ [idx ! (k * 3), idx ! (k * 3 + 1), idx ! (k * 3 + 2)]"
proof -
  assume a: "k * 3 + 2 < length idx"
  have "Suc k * 3 = Suc (Suc (Suc (k * 3)))" by simp
  then have "take (Suc k * 3) idx = take (Suc (Suc (Suc (k * 3)))) idx" by (simp only:)
  also have "\<dots> = take (k * 3) idx @ [idx ! (k * 3), idx ! (k * 3 + 1), idx ! (k * 3 + 2)]"
    using a by (simp add: take_Suc_conv_app_nth)
  finally show ?thesis .
qed

lemma face_loop_inv:
  "foldM (face_step minArea ps idx) [] (map (\<lambda>k. k * 3) [0 ..< m]) = Inr valid \<Longrightarrow>
   m * 3 \<le> length idx \<and> subseq valid (take (m * 3) idx) \<and> length valid mod 3 = 0
   \<and> subseq (triples valid) (triples (take (m * 3) idx))
   \<and> list_all (passes minArea ps) (triples valid)"
proof (induction m arbitrary: valid)
  case 0
  then show ?case by simp
next
  case (Suc m)
  from Suc.prems obtain mid where
    mid: "foldM (face_step minArea ps idx) [] (map (\<lambda>k. k * 3) [0 ..< m]) = Inr mid"
    and step: "face_step minArea ps idx mid (m * 3) = Inr valid"
    by (auto simp: foldM_append split: sum.splits)
  from Suc.IH [OF mid] have ih: "subseq mid (take (m * 3) idx)" "length mid mod 3 = 0"
    "subseq (triples mid) (triples (take (m * 3) idx))"
    "list_all (passes minArea ps) (triples mid)" and le0: "m * 3 \<le> length idx" by simp_all
  from face_step_Inr [OF step] have r: "m * 3 + 2 < length idx"
    and c: "valid = mid \<or> (valid = mid @ [idx ! (m * 3), idx ! (m * 3 + 1), idx ! (m * 3 + 2)]
        \<and> passes minArea ps (idx ! (m * 3), idx ! (m * 3 + 1), idx ! (m * 3 + 2)))"
    by simp_all
  from r have le: "Suc m * 3 \<le> length idx" by simp
  from le0 have "length (take (m * 3) idx) mod 3 = 0" by simp
  from triples_append [OF this] take_triple [OF r]
  have tt: "triples (take (Suc m * 3) idx)
      = triples (take (m * 3) idx) @ [(idx ! (m * 3), idx ! (m * 3 + 1), idx ! (m * 3 + 2))]"
    by simp
  from c show ?case
  proof
    assume "valid = mid"
    moreover have "subseq mid (take (Suc m * 3) idx)"
      using list_emb_prefix [OF ih(1)] take_triple [OF r] by simp
    moreover have "subseq (triples mid) (triples (take (Suc m * 3) idx))"
      using list_emb_prefix [OF ih(3)] tt by simp
    ultimately show ?thesis using ih le by simp
  next
    assume a: "valid = mid @ [idx ! (m * 3), idx ! (m * 3 + 1), idx ! (m * 3 + 2)]
        \<and> passes minArea ps (idx ! (m * 3), idx ! (m * 3 + 1), idx ! (m * 3 + 2))"
    have "subseq valid (take (Suc m * 3) idx)"
      using a list_emb_append_mono [OF ih(1) subseq_order.order_refl] take_triple [OF r] by simp
    moreover have "length valid mod 3 = 0" using a ih(2) by auto
    moreover have tv: "triples valid = triples mid @ [(idx ! (m * 3), idx ! (m * 3 + 1), idx ! (m * 3 + 2))]"
      using a ih(2) by (simp add: triples_append)
    moreover have "subseq (triples valid) (triples (take (Suc m * 3) idx))"
      unfolding tv tt by (rule list_emb_append_mono [OF ih(3) subseq_order.order_refl])
    moreover have "list_all (passes minArea ps) (triples valid)"
      using a ih(4) tv by simp
    ultimately show ?thesis using le by simp
  qed
qed

lemma face_loop_result:
  assumes "foldM (face_step minArea ps idx) []
             (map (\<lambda>k. k * 3) [0 ..< loop_count (length idx) 3]) = Inr valid"
  shows "subseq valid idx" and "subseq (triples valid) (triples idx)"
    and "list_all (passes minArea ps) (triples valid)"
    and "\<not> length valid < length idx \<Longrightarrow> valid = idx"
    and "length valid mod 3 = 0"
proof -
  let ?m = "loop_count (length idx) 3"
  from face_loop_inv [OF assms] have le: "?m * 3 \<le> length idx"
    and sub: "subseq valid (take (?m * 3) idx)"
    and tsub: "subseq (triples valid) (triples (take (?m * 3) idx))"
    and ok: "list_all (passes minArea ps) (triples valid)" by simp_all
  from face_loop_inv [OF assms] show "length valid mod 3 = 0" by simp
  have "length idx \<le> ?m * 3" by (simp add: loop_count_def)
  with le have eq: "?m * 3 = length idx" by simp
  with sub show s: "subseq valid idx" by simp
  from tsub eq show "subseq (triples valid) (triples idx)" by simp
  from ok show "list_all (passes minArea ps) (triples valid)" .
  show "valid = idx" if "\<not> length valid < length idx"
    using s that by (metis subseq_same_length list_emb_length le_antisym not_less)
qed

lemma subseq_uint32:
  assumes "subseq valid idx" and "list_all is_uint32 idx"
  shows "map (coerce Uint32) valid = valid"
proof (rule map_idI)
  fix v assume "v \<in> set valid"
  with list_emb_set [OF assms(1)] have "v \<in> set idx"
    by auto
  with assms(2) have "is_uint32 v" by (simp add: list_all_iff)
  then show "coerce Uint32 v = v" by (rule coerce_uint32_id)
qed

subsection \<open>The area the loop computes\<close>

lemma cross_area_spec: "cross_area p q r = triangle_area p q r"
  by (cases p; cases q; cases r)
    (simp add: cross_area_def triangle_area_def magnitude_def cross_product_def edge_vector_def
      Let_def power2_eq_square)

lemma vertex_at_nat:
  assumes v: "v = real k" and a: "vertex_at ps v = Inr p"
  shows "k < length ps div 3 \<and> p = vertex_position ps k"
proof -
  have e: "js_at ps (real (k * 3)) = js_at ps (v * 3)"
    "js_at ps (real (k * 3 + 1)) = js_at ps (v * 3 + 1)"
    "js_at ps (real (k * 3 + 2)) = js_at ps (v * 3 + 2)"
    using v by (simp_all add: add.commute)
  from a obtain vx vy vz where r: "js_at ps (v * 3) = Inr vx" "js_at ps (v * 3 + 1) = Inr vy"
    "js_at ps (v * 3 + 2) = Inr vz" and p: "p = (vx, vy, vz)"
    by (auto simp: vertex_at_def split: sum.splits)
  have "js_at ps (real (k * 3)) = Inr vx" "js_at ps (real (k * 3 + 1)) = Inr vy"
    "js_at ps (real (k * 3 + 2)) = Inr vz"
    by (simp_all only: e r)
  then have "k * 3 + 2 < length ps" "vx = ps ! (k * 3)" "vy = ps ! (k * 3 + 1)"
    "vz = ps ! (k * 3 + 2)"
    unfolding js_at_nat by (simp_all split: if_splits)
  then have "k < length ps div 3" by presburger
  moreover from p \<open>vx = ps ! (k * 3)\<close> \<open>vy = ps ! (k * 3 + 1)\<close> \<open>vz = ps ! (k * 3 + 2)\<close>
  have "p = vertex_position ps k" by (simp add: vertex_position_def)
  ultimately show ?thesis by simp
qed

lemma uint32_nat: "is_uint32 v \<Longrightarrow> v = real (nat \<lfloor>v\<rfloor>)"
  by (simp add: is_uint32_def)

lemma passes_nondegenerate:
  assumes p: "passes minArea ps (i0, i1, i2)"
    and u: "is_uint32 i0" "is_uint32 i1" "is_uint32 i2"
  shows "nondegenerate minArea ps (i0, i1, i2)"
proof -
  from p have ne: "i0 \<noteq> i1" "i1 \<noteq> i2" "i0 \<noteq> i2" by (simp_all add: passes_def)
  from p obtain area where area: "tri_area ps i0 i1 i2 = Inr area" "\<not> area < minArea"
    by (auto simp: passes_def split: sum.splits)
  from area(1) obtain v0 v1 v2 where v: "vertex_at ps i0 = Inr v0" "vertex_at ps i1 = Inr v1"
    "vertex_at ps i2 = Inr v2" and a: "area = cross_area v0 v1 v2"
    by (auto simp: tri_area_def split: sum.splits)
  let ?k0 = "nat \<lfloor>i0\<rfloor>" and ?k1 = "nat \<lfloor>i1\<rfloor>" and ?k2 = "nat \<lfloor>i2\<rfloor>"
  from vertex_at_nat [OF uint32_nat [OF u(1)] v(1)] vertex_at_nat [OF uint32_nat [OF u(2)] v(2)]
    vertex_at_nat [OF uint32_nat [OF u(3)] v(3)]
  have k: "?k0 < length ps div 3" "v0 = vertex_position ps ?k0"
    "?k1 < length ps div 3" "v1 = vertex_position ps ?k1"
    "?k2 < length ps div 3" "v2 = vertex_position ps ?k2" by simp_all
  from u k(1,3,5) have "index_ok (length ps div 3) i0" "index_ok (length ps div 3) i1"
    "index_ok (length ps div 3) i2" by (simp_all add: index_ok_def is_uint32_def)
  with ne area(2) a k(2,4,6) show ?thesis
    by (simp add: nondegenerate_def cross_area_spec)
qed

subsection \<open>What removeDegenerateFaces does for one primitive\<close>

lemma rdf_prim_skip:
  "prim_mode prim \<noteq> 4 \<or> getAttribute accs prim ''POSITION'' = None \<or> getIndices accs prim = None
      \<or> (\<exists>r a. getAttribute accs prim ''POSITION'' = Some (r, a) \<and> acc_array a = None)
      \<or> (\<exists>r a. getIndices accs prim = Some (r, a) \<and> acc_array a = None)
   \<Longrightarrow> removeDegenerateFaces_prim minArea accs prim = Inr accs"
  by (auto simp: removeDegenerateFaces_prim_def split: option.splits)

lemma rdf_prim_cases:
  assumes r: "removeDegenerateFaces_prim minArea accs prim = Inr accs'"
    and mode: "prim_mode prim = 4"
    and pa: "getAttribute accs prim ''POSITION'' = Some (pr, pa)" and ps: "acc_array pa = Some positions"
    and ia: "getIndices accs prim = Some (ir, ia)" and ix: "acc_array ia = Some indices"
  obtains (same) "accs' = accs"
      "list_all (passes minArea (elems positions)) (triples (elems indices))"
  | (rewritten) valid where "subseq valid (elems indices)"
      "subseq (triples valid) (triples (elems indices))"
      "length valid < length (elems indices)"
      "list_all (passes minArea (elems positions)) (triples valid)"
      "accs' = setArray ir \<lparr>kind = Uint32, elems = map (coerce Uint32) valid\<rparr> accs"
      "length valid mod 3 = 0"
proof -
  let ?loop = "foldM (face_step minArea (elems positions) (elems indices)) []
             (map (\<lambda>k. k * 3) [0 ..< loop_count (length (elems indices)) 3])"
  from mode pa ps ia ix have unf: "removeDegenerateFaces_prim minArea accs prim =
      (case ?loop of
         Inl e \<Rightarrow> Inl e
       | Inr validIndices \<Rightarrow>
          if length validIndices < length (elems indices)
          then Inr (setArray ir \<lparr>kind = Uint32, elems = map (coerce Uint32) validIndices\<rparr> accs)
          else Inr accs)"
    by (simp add: removeDegenerateFaces_prim_def)
  from r unf obtain valid where loop: "?loop = Inr valid"
    by (cases ?loop) simp_all
  note res = face_loop_result [OF loop]
  show thesis
  proof (cases "length valid < length (elems indices)")
    case True
    with r unf loop have "accs' = setArray ir \<lparr>kind = Uint32, elems = map (coerce Uint32) valid\<rparr> accs"
      by simp
    with res(1) res(2) True res(3) show thesis using res(5) by (rule rewritten)
  next
    case False
    with r unf loop have "accs' = accs"
      by simp
    moreover from res(3) res(4) [OF False]
    have "list_all (passes minArea (elems positions)) (triples (elems indices))"
      by simp
    ultimately show thesis by (rule same)
  qed
qed

lemma thinned_refl: "thinned a a"
  by (simp add: thinned_def)

lemma thinned_trans:
  assumes "thinned a b" and "thinned b c"
  shows "thinned a c"
proof (cases "b = a")
  case True
  with assms(2) show ?thesis by simp
next
  case False
  with assms(1) obtain x old new where
    1: "a = Some x" "acc_array x = Some old" "b = Some (x\<lparr>acc_array := Some new\<rparr>)"
      "subseq (triples (elems new)) (triples (elems old))" "set (elems new) \<subseteq> set (elems old)"
    by (auto simp: thinned_def)
  show ?thesis
  proof (cases "c = b")
    case True
    with assms(1) show ?thesis by simp
  next
    case False
    with assms(2) 1(3) obtain new' where
      2: "c = Some (x\<lparr>acc_array := Some new'\<rparr>)"
        "subseq (triples (elems new')) (triples (elems new))" "set (elems new') \<subseteq> set (elems new)"
      by (auto simp: thinned_def)
    from 1(4) 2(2) have "subseq (triples (elems new')) (triples (elems old))"
      by (meson subseq_order.order_trans)
    with 1 2 show ?thesis unfolding thinned_def by blast
  qed
qed

lemma thinned_index_values:
  assumes t: "thinned (accs r) (accs' r)" and i: "prim_indices prim = Some r"
  shows "subseq (triples (index_values accs' prim)) (triples (index_values accs prim))"
    and "set (index_values accs' prim) \<subseteq> set (index_values accs prim)"
proof -
  have "subseq (triples (index_values accs' prim)) (triples (index_values accs prim))
      \<and> set (index_values accs' prim) \<subseteq> set (index_values accs prim)"
  proof (cases "accs' r = accs r")
    case True
    with i show ?thesis by (simp add: index_values_def getIndices_def)
  next
    case False
    with t obtain x old new where "accs r = Some x" "acc_array x = Some old"
      "accs' r = Some (x\<lparr>acc_array := Some new\<rparr>)"
      "subseq (triples (elems new)) (triples (elems old))" "set (elems new) \<subseteq> set (elems old)"
      by (auto simp: thinned_def)
    with i show ?thesis by (simp add: index_values_def getIndices_def)
  qed
  then show "subseq (triples (index_values accs' prim)) (triples (index_values accs prim))"
    and "set (index_values accs' prim) \<subseteq> set (index_values accs prim)" by simp_all
qed

text \<open>
  One step on a store whose index values for the primitive are unsigned integers: only the
  index accessor of the primitive can change, and it loses whole triples only.
\<close>

lemma rdf_prim_thins:
  assumes r: "removeDegenerateFaces_prim minArea accs prim = Inr accs'"
    and u: "list_all is_uint32 (index_values accs prim)"
  shows "thinned (accs r') (accs' r')" and "prim_indices prim \<noteq> Some r' \<Longrightarrow> accs' r' = accs r'"
proof -
  have "thinned (accs r') (accs' r') \<and> (prim_indices prim \<noteq> Some r' \<longrightarrow> accs' r' = accs r')"
  proof (cases "prim_mode prim \<noteq> 4 \<or> getAttribute accs prim ''POSITION'' = None \<or> getIndices accs prim = None
      \<or> (\<exists>r a. getAttribute accs prim ''POSITION'' = Some (r, a) \<and> acc_array a = None)
      \<or> (\<exists>r a. getIndices accs prim = Some (r, a) \<and> acc_array a = None)")
    case True
    from rdf_prim_skip [OF this, of minArea] r show ?thesis by (simp add: thinned_refl)
  next
    case False
    then obtain pr pa positions ir ia indices where mode: "prim_mode prim = 4"
      and pa: "getAttribute accs prim ''POSITION'' = Some (pr, pa)" and ps: "acc_array pa = Some positions"
      and ia: "getIndices accs prim = Some (ir, ia)" and ix: "acc_array ia = Some indices"
      by auto
    from ia have ir: "prim_indices prim = Some ir" "accs ir = Some ia"
      by (simp_all add: getIndices_Some)
    from r mode pa ps ia ix show ?thesis
    proof (cases rule: rdf_prim_cases)
      case same
      then show ?thesis by (simp add: thinned_refl)
    next
      case (rewritten valid)
      from u ia ix have "list_all is_uint32 (elems indices)" by (simp add: index_values_def)
      from subseq_uint32 [OF rewritten(1) this]
      have acc': "accs' = setArray ir \<lparr>kind = Uint32, elems = valid\<rparr> accs"
        using rewritten(5) by simp
      have new: "accs' ir = Some (ia\<lparr>acc_array := Some \<lparr>kind = Uint32, elems = valid\<rparr>\<rparr>)"
        using acc' ir(2) by (simp add: setArray_apply)
      have sub: "set valid \<subseteq> set (elems indices)"
        using list_emb_set [OF rewritten(1)] by auto
      have "thinned (accs ir) (accs' ir)"
        unfolding thinned_def
        by (rule disjI2, rule exI [of _ ia], rule exI [of _ indices],
            rule exI [of _ "\<lparr>kind = Uint32, elems = valid\<rparr>"])
          (use new ir(2) ix rewritten(2) sub in simp)
      with acc' ir(1) show ?thesis
        by (cases "r' = ir") (simp_all add: setArray_apply thinned_refl)
    qed
  qed
  then show "thinned (accs r') (accs' r')"
    and "prim_indices prim \<noteq> Some r' \<Longrightarrow> accs' r' = accs r'" by simp_all
qed

lemma rdf_fold_thins:
  assumes "foldM (removeDegenerateFaces_prim minArea) accs ps = Inr accs'"
    and "\<forall>p \<in> set ps. list_all is_uint32 (index_values accs p)"
  shows "(\<forall>r. thinned (accs r) (accs' r))
     \<and> (\<forall>r. (\<forall>p \<in> set ps. prim_indices p \<noteq> Some r) \<longrightarrow> accs' r = accs r)"
  using assms
proof (induction ps arbitrary: accs)
  case Nil
  then show ?case by (simp add: thinned_refl)
next
  case (Cons p ps)
  from Cons.prems(1) obtain mid where
    one: "removeDegenerateFaces_prim minArea accs p = Inr mid"
    and rest: "foldM (removeDegenerateFaces_prim minArea) mid ps = Inr accs'"
    by (auto split: sum.splits)
  from Cons.prems(2) have u: "list_all is_uint32 (index_values accs p)" by simp
  note step = rdf_prim_thins [OF one u]
  have "list_all is_uint32 (index_values mid q)" if q: "q \<in> set ps" for q
  proof (cases "prim_indices q")
    case None
    then show ?thesis by (simp add: index_values_def getIndices_def)
  next
    case (Some r)
    from thinned_index_values(2) [where accs = accs and accs' = mid and r = r and prim = q,
        OF step(1) Some] Cons.prems(2) q show ?thesis
      by (auto simp: list_all_iff)
  qed
  then have "\<forall>q \<in> set ps. list_all is_uint32 (index_values mid q)" by simp
  from Cons.IH [OF rest this] have ih: "\<forall>r. thinned (mid r) (accs' r)"
    "\<forall>r. (\<forall>p \<in> set ps. prim_indices p \<noteq> Some r) \<longrightarrow> accs' r = mid r" by simp_all
  have "thinned (accs r) (accs' r)" for r
    using step(1) [of r] ih(1) by (blast intro: thinned_trans)
  moreover have "accs' r = accs r" if "\<forall>q \<in> set (p # ps). prim_indices q \<noteq> Some r" for r
    using that step(2) [of r] ih(2) by simp
  ultimately show ?case by blast
qed

lemma removeDegenerateFaces_flat:
  "removeDegenerateFaces minArea doc =
     (case foldM (removeDegenerateFaces_prim minArea) (doc_accessors doc) (all_primitives doc) of
        Inl e \<Rightarrow> Inl e
      | Inr accs \<Rightarrow> Inr (doc\<lparr>doc_accessors := accs\<rparr>))"
proof -
  have "foldM (removeDegenerateFaces_mesh minArea) (doc_accessors doc) (doc_meshes doc)
      = foldM (removeDegenerateFaces_prim minArea) (doc_accessors doc) (all_primitives doc)"
    unfolding all_primitives_def
    using foldM_concat [of "removeDegenerateFaces_prim minArea" mesh_primitives "doc_accessors doc" "doc_meshes doc"]
    by (simp add: removeDegenerateFaces_mesh_def [abs_def])
  then show ?thesis by (simp add: removeDegenerateFaces_def)
qed

lemma passes_all_nondegenerate:
  assumes "list_all (passes minArea ps) (triples idx)" and "list_all is_uint32 idx"
  shows "list_all (nondegenerate minArea ps) (triples idx)"
  using assms
proof (induction idx rule: triples.induct)
  case (1 a b c xs)
  then show ?case by (simp add: passes_nondegenerate)
qed simp_all

lemma subseq_list_all: "subseq ys xs \<Longrightarrow> list_all P xs \<Longrightarrow> list_all P ys"
  by (auto simp: list_all_iff dest: list_emb_set)

text \<open>
  The result of a run, for one triangle primitive that has a position array and an index
  array: every triple of its index array passes the test against its positions, which are
  the ones it had, and so are all its attributes.
\<close>

lemma rdf_fold_survivors:
  assumes run: "foldM (removeDegenerateFaces_prim minArea) accs ps = Inr accs'"
    and u: "\<forall>p \<in> set ps. list_all is_uint32 (index_values accs p)"
    and apart: "\<forall>p \<in> set ps. \<forall>q \<in> set ps. \<forall>r. prim_indices q = Some r \<longrightarrow> r \<notin> snd ` set (prim_attributes p)"
    and p: "prim \<in> set ps" and mode: "prim_mode prim = 4"
    and pa: "getAttribute accs prim ''POSITION'' = Some (pr, pa)" and ps: "acc_array pa = Some positions"
    and ia: "getIndices accs prim = Some (ir, ia)" and ix: "acc_array ia = Some indices"
  shows "list_all (passes minArea (elems positions)) (triples (index_values accs' prim))"
    and "list_all is_uint32 (index_values accs' prim)"
    and "getAttribute accs' prim semantic = getAttribute accs prim semantic"
proof -
  have attr: "accs' r = accs r" if "r \<in> snd ` set (prim_attributes prim)" for r
  proof -
    from apart p that have "\<forall>q \<in> set ps. prim_indices q \<noteq> Some r" by blast
    with rdf_fold_thins [OF run u] show ?thesis by blast
  qed
  show "getAttribute accs' prim semantic = getAttribute accs prim semantic"
  proof (cases "map_of (prim_attributes prim) semantic")
    case None
    then show ?thesis by (simp add: getAttribute_def)
  next
    case (Some r)
    then have "r \<in> snd ` set (prim_attributes prim)"
      by (auto dest: map_of_SomeD intro: rev_image_eqI)
    from attr [OF this] Some show ?thesis by (simp add: getAttribute_def)
  qed
  from ia have ir: "prim_indices prim = Some ir" by (simp add: getIndices_Some)
  from rdf_fold_thins [OF run u] have "thinned (accs ir) (accs' ir)" by blast
  from thinned_index_values(2) [where accs = accs and accs' = accs' and r = ir and prim = prim,
      OF this ir] u p
  show "list_all is_uint32 (index_values accs' prim)" by (auto simp: list_all_iff)
  from p obtain pre post where split: "ps = pre @ prim # post"
    by (auto dest: split_list)
  from run split obtain a1 a2 where
    r1: "foldM (removeDegenerateFaces_prim minArea) accs pre = Inr a1"
    and r2: "removeDegenerateFaces_prim minArea a1 prim = Inr a2"
    and r3: "foldM (removeDegenerateFaces_prim minArea) a2 post = Inr accs'"
    by (auto simp: foldM_append split: sum.splits)
  from u split have u1: "\<forall>q \<in> set pre. list_all is_uint32 (index_values accs q)" by simp
  note th1 = rdf_fold_thins [OF r1 u1]
  have uq: "list_all is_uint32 (index_values a1 q)" if q: "q \<in> set ps" for q
  proof (cases "prim_indices q")
    case None
    then show ?thesis by (simp add: index_values_def getIndices_def)
  next
    case (Some r)
    from th1 have "thinned (accs r) (a1 r)" by blast
    from thinned_index_values(2) [where accs = accs and accs' = a1 and r = r and prim = q,
        OF this Some] u q show ?thesis
      by (auto simp: list_all_iff)
  qed
  from pa have pr: "map_of (prim_attributes prim) ''POSITION'' = Some pr" "accs pr = Some pa"
    by (simp_all add: getAttribute_Some)
  then have prmem: "pr \<in> snd ` set (prim_attributes prim)"
    by (auto dest: map_of_SomeD intro: rev_image_eqI)
  from apart p prmem split have "\<forall>q \<in> set pre. prim_indices q \<noteq> Some pr" by auto
  with th1 pr(2) have "a1 pr = Some pa" by auto
  with pr(1) have pa1: "getAttribute a1 prim ''POSITION'' = Some (pr, pa)"
    by (simp add: getAttribute_Some)
  from ia have "accs ir = Some ia" by (simp add: getIndices_Some)
  moreover from th1 have "thinned (accs ir) (a1 ir)" by blast
  ultimately obtain ia1 idx1 where ia1: "a1 ir = Some ia1" "acc_array ia1 = Some idx1"
    using ix by (auto simp: thinned_def)
  with ir have gi1: "getIndices a1 prim = Some (ir, ia1)" by (simp add: getIndices_Some)
  have after: "list_all (passes minArea (elems positions)) (triples (index_values a2 prim))"
    using r2 mode pa1 ps gi1 ia1(2)
  proof (cases rule: rdf_prim_cases)
    case same
    with gi1 ia1(2) show ?thesis by (simp add: index_values_def)
  next
    case (rewritten valid)
    from uq [OF p] gi1 ia1(2) have "list_all is_uint32 (elems idx1)" by (simp add: index_values_def)
    from subseq_uint32 [OF rewritten(1) this] rewritten(4,5) ir ia1(1) show ?thesis
      by (simp add: index_values_def getIndices_def setArray_apply)
  qed
  have u2: "\<forall>q \<in> set post. list_all is_uint32 (index_values a2 q)"
  proof
    fix q assume q: "q \<in> set post"
    with split have qs: "q \<in> set ps" by simp
    show "list_all is_uint32 (index_values a2 q)"
    proof (cases "prim_indices q")
      case None
      then show ?thesis by (simp add: index_values_def getIndices_def)
    next
      case (Some r)
      from rdf_prim_thins(1) [OF r2 uq [OF p], of r] have "thinned (a1 r) (a2 r)" .
      from thinned_index_values(2) [where accs = a1 and accs' = a2 and r = r and prim = q,
          OF this Some] uq [OF qs]
      show ?thesis by (auto simp: list_all_iff)
    qed
  qed
  from rdf_fold_thins [OF r3 u2] have "thinned (a2 ir) (accs' ir)" by blast
  from thinned_index_values(1) [where accs = a2 and accs' = accs' and r = ir and prim = prim,
      OF this ir] after
  show "list_all (passes minArea (elems positions)) (triples (index_values accs' prim))"
    by (rule subseq_list_all)
qed

subsection \<open>removeDegenerateFaces returns\<close>

lemma vertex_at_ok:
  assumes "index_ok (length ps div 3) v"
  shows "\<exists>p. vertex_at ps v = Inr p"
proof -
  from assms obtain k where k: "v = real k" "k < length ps div 3"
    by (auto simp: index_ok_def intro: that [of "nat \<lfloor>v\<rfloor>"])
  then have b: "k * 3 + 2 < length ps" by presburger
  have "v * 3 = real (k * 3)" "v * 3 + 1 = real (k * 3 + 1)" "v * 3 + 2 = real (k * 3 + 2)"
    using k(1) by simp_all
  then show ?thesis using b unfolding vertex_at_def
    by (simp only: js_at_nat) simp
qed

lemma face_step_total:
  assumes "i + 2 < length idx" and "list_all (index_ok (length ps div 3)) idx"
  shows "\<exists>valid'. face_step minArea ps idx valid i = Inr valid'"
proof -
  from assms have "index_ok (length ps div 3) (idx ! i)" "index_ok (length ps div 3) (idx ! (i + 1))"
    "index_ok (length ps div 3) (idx ! (i + 2))" by (simp_all add: list_all_length)
  from this [THEN vertex_at_ok] obtain p0 p1 p2 where
    "vertex_at ps (idx ! i) = Inr p0" "vertex_at ps (idx ! (i + 1)) = Inr p1"
    "vertex_at ps (idx ! (i + 2)) = Inr p2" by blast
  with assms(1) show ?thesis unfolding face_step_def js_at_nat
    by (simp add: tri_area_def)
qed

lemma face_loop_total:
  assumes "list_all (index_ok (length ps div 3)) idx"
  shows "m * 3 \<le> length idx \<Longrightarrow>
    \<exists>valid. foldM (face_step minArea ps idx) [] (map (\<lambda>k. k * 3) [0 ..< m]) = Inr valid"
proof (induction m)
  case 0
  then show ?case by simp
next
  case (Suc m)
  then obtain mid where
    mid: "foldM (face_step minArea ps idx) [] (map (\<lambda>k. k * 3) [0 ..< m]) = Inr mid" by auto
  from Suc.prems have "m * 3 + 2 < length idx" by simp
  from face_step_total [OF this assms, of minArea mid] mid show ?case
    by (auto simp: foldM_append)
qed

lemma rdf_prim_returns:
  assumes "prim_mode prim = 4 \<Longrightarrow> face_ready accs prim"
  shows "\<exists>accs'. removeDegenerateFaces_prim minArea accs prim = Inr accs'"
proof (cases "prim_mode prim \<noteq> 4 \<or> getAttribute accs prim ''POSITION'' = None \<or> getIndices accs prim = None
      \<or> (\<exists>r a. getAttribute accs prim ''POSITION'' = Some (r, a) \<and> acc_array a = None)
      \<or> (\<exists>r a. getIndices accs prim = Some (r, a) \<and> acc_array a = None)")
  case True
  from rdf_prim_skip [OF this] show ?thesis by blast
next
  case False
  then obtain pr pa positions ir ia indices where mode: "prim_mode prim = 4"
    and pa: "getAttribute accs prim ''POSITION'' = Some (pr, pa)" and ps: "acc_array pa = Some positions"
    and ia: "getIndices accs prim = Some (ir, ia)" and ix: "acc_array ia = Some indices"
    by auto
  from assms [OF mode] pa ps ia ix
  have ok: "list_all (index_ok (length (elems positions) div 3)) (elems indices)"
    and m3: "length (elems indices) mod 3 = 0"
    by (simp_all add: face_ready_def indices_valid_def vertex_count_def position_values_def
        index_values_def)
  from m3 have "loop_count (length (elems indices)) 3 * 3 \<le> length (elems indices)"
    by (auto simp: loop_count_def)
  from face_loop_total [OF ok this, of minArea] obtain valid where
    "foldM (face_step minArea (elems positions) (elems indices)) []
       (map (\<lambda>k. k * 3) [0 ..< loop_count (length (elems indices)) 3]) = Inr valid" by blast
  with mode pa ps ia ix show ?thesis
    by (simp add: removeDegenerateFaces_prim_def)
qed

text \<open>
  A step for one primitive leaves every primitive readable whose attributes do not refer to
  the index accessor of the visited one.
\<close>

lemma rdf_prim_keeps_ready:
  assumes r: "removeDegenerateFaces_prim minArea accs q = Inr accs'"
    and u: "list_all is_uint32 (index_values accs q)"
    and apart: "\<And>r. prim_indices q = Some r \<Longrightarrow> r \<notin> snd ` set (prim_attributes p)"
    and ready: "face_ready accs p"
  shows "face_ready accs' p"
proof (cases "prim_mode q \<noteq> 4 \<or> getAttribute accs q ''POSITION'' = None \<or> getIndices accs q = None
      \<or> (\<exists>r a. getAttribute accs q ''POSITION'' = Some (r, a) \<and> acc_array a = None)
      \<or> (\<exists>r a. getIndices accs q = Some (r, a) \<and> acc_array a = None)")
  case True
  from rdf_prim_skip [OF this, of minArea] r ready show ?thesis by simp
next
  case False
  then obtain pr pa positions ir ia indices where mode: "prim_mode q = 4"
    and pa: "getAttribute accs q ''POSITION'' = Some (pr, pa)" and ps: "acc_array pa = Some positions"
    and ia: "getIndices accs q = Some (ir, ia)" and ix: "acc_array ia = Some indices"
    by auto
  from r mode pa ps ia ix show ?thesis
  proof (cases rule: rdf_prim_cases)
    case same
    with ready show ?thesis by simp
  next
    case (rewritten valid)
    from ia have ir: "prim_indices q = Some ir" "accs ir = Some ia" by (simp_all add: getIndices_Some)
    from ia ix have iq: "index_values accs q = elems indices" by (simp add: index_values_def)
    with subseq_uint32 [OF rewritten(1)] u have v: "map (coerce Uint32) valid = valid" by simp
    from apart [OF ir(1)] have "ir \<notin> snd ` set (prim_attributes p)" .
    then have attr: "getAttribute accs' p semantic = getAttribute accs p semantic" for semantic
      unfolding rewritten(5) getAttribute_def
      by (cases "map_of (prim_attributes p) semantic")
        (auto simp: setArray_apply dest!: map_of_SomeD intro: rev_image_eqI)
    then have vc: "vertex_count accs' p = vertex_count accs p"
      by (simp add: vertex_count_def position_values_def)
    show ?thesis
    proof (cases "prim_indices p = Some ir")
      case True
      with ir(2) ix have ip: "index_values accs p = elems indices"
        by (simp add: index_values_def getIndices_def)
      from True ir(2) v have ip': "index_values accs' p = valid"
        unfolding rewritten(5) by (simp add: index_values_def getIndices_def setArray_apply)
      from ready ip have "list_all (index_ok (vertex_count accs p)) (elems indices)"
        by (simp add: face_ready_def indices_valid_def)
      from subseq_list_all [OF rewritten(1) this] vc ip' rewritten(6) show ?thesis
        by (simp add: face_ready_def indices_valid_def)
    next
      case False
      then have "getIndices accs' p = getIndices accs p"
        unfolding rewritten(5) getIndices_def
        by (cases "prim_indices p") (auto simp: setArray_apply)
      with ready vc show ?thesis
        by (simp add: face_ready_def indices_valid_def index_values_def)
    qed
  qed
qed

lemma rdf_fold_returns:
  "\<forall>p \<in> set ps. list_all is_uint32 (index_values accs p) \<Longrightarrow>
   \<forall>p \<in> set ps. \<forall>q \<in> set ps. \<forall>r. prim_indices q = Some r \<longrightarrow> r \<notin> snd ` set (prim_attributes p) \<Longrightarrow>
   \<forall>p \<in> set ps. prim_mode p = 4 \<longrightarrow> face_ready accs p \<Longrightarrow>
   \<exists>accs'. foldM (removeDegenerateFaces_prim minArea) accs ps = Inr accs'"
proof (induction ps arbitrary: accs)
  case Nil
  then show ?case by simp
next
  case (Cons q ps)
  from Cons.prems(3) have "prim_mode q = 4 \<Longrightarrow> face_ready accs q" by simp
  from rdf_prim_returns [OF this, of minArea] obtain mid where
    one: "removeDegenerateFaces_prim minArea accs q = Inr mid" by blast
  from Cons.prems(1) have u: "list_all is_uint32 (index_values accs q)" by simp
  note step = rdf_prim_thins [OF one u]
  have u': "\<forall>p \<in> set ps. list_all is_uint32 (index_values mid p)"
  proof
    fix p assume p: "p \<in> set ps"
    show "list_all is_uint32 (index_values mid p)"
    proof (cases "prim_indices p")
      case None
      then show ?thesis by (simp add: index_values_def getIndices_def)
    next
      case (Some r)
      from thinned_index_values(2) [where accs = accs and accs' = mid and r = r and prim = p,
          OF step(1) Some] Cons.prems(1) p show ?thesis
        by (auto simp: list_all_iff)
    qed
  qed
  have ready': "\<forall>p \<in> set ps. prim_mode p = 4 \<longrightarrow> face_ready mid p"
  proof (intro ballI impI)
    fix p assume p: "p \<in> set ps" and m: "prim_mode p = 4"
    with Cons.prems(3) have "face_ready accs p" by simp
    moreover from Cons.prems(2) p
    have "\<And>r. prim_indices q = Some r \<Longrightarrow> r \<notin> snd ` set (prim_attributes p)" by simp
    ultimately show "face_ready mid p" using rdf_prim_keeps_ready [OF one u] by blast
  qed
  from Cons.prems(2) have
    "\<forall>p \<in> set ps. \<forall>q \<in> set ps. \<forall>r. prim_indices q = Some r \<longrightarrow> r \<notin> snd ` set (prim_attributes p)"
    by simp
  from Cons.IH [OF u' this ready'] one show ?case by auto
qed

text \<open>
  The transform returns on a document whose triangle primitives the face loop can read:
  no read of an index or of a coordinate is out of range.
\<close>

lemma removeDegenerateFaces_returns:
  assumes "indices_apart doc" and "indices_unsigned doc"
    and "\<forall>p \<in> set (all_primitives doc). prim_mode p = 4 \<longrightarrow> face_ready (doc_accessors doc) p"
  shows "\<exists>doc'. removeDegenerateFaces minArea doc = Inr doc'"
proof -
  from assms(2) have u: "\<forall>p \<in> set (all_primitives doc).
      list_all is_uint32 (index_values (doc_accessors doc) p)"
    by (simp add: indices_unsigned_def list_all_iff)
  from assms(1) have apart: "\<forall>p \<in> set (all_primitives doc). \<forall>q \<in> set (all_primitives doc).
      \<forall>r. prim_indices q = Some r \<longrightarrow> r \<notin> snd ` set (prim_attributes p)"
    by (auto simp: indices_apart_def list_all_iff split: option.splits)
  from rdf_fold_returns [OF u apart assms(3), of minArea] show ?thesis
    by (auto simp: removeDegenerateFaces_flat)
qed

lemma upt_2: "[0..<2] = [0, 1]" by (simp add: upt_rec)

lemma flat_vertices:
  "vertex_at flat_positions 0 = Inr (0, 0, 0)"
  "vertex_at flat_positions 1 = Inr (1, 0, 0)"
  "vertex_at flat_positions 2 = Inr (0, 1, 0)"
  "vertex_at flat_positions 3 = Inr (2, 0, 0)"
  by (simp_all add: vertex_at_def js_at_def flat_positions_def)

lemma flat_areas:
  "tri_area flat_positions 0 1 2 = Inr (1 / 2)"
  "tri_area flat_positions 0 1 3 = Inr 0"
  by (simp_all add: tri_area_def flat_vertices cross_area_def)

lemma flat_steps:
  "face_step (1 / 10000000000) flat_positions [0, 1, 2, 0, 1, 3, 0, 0, 1] [] 0 = Inr [0, 1, 2]"
  "face_step (1 / 10000000000) flat_positions [0, 1, 2, 0, 1, 3, 0, 0, 1] [0, 1, 2] 3 = Inr [0, 1, 2]"
  "face_step (1 / 10000000000) flat_positions [0, 1, 2, 0, 1, 3, 0, 0, 1] [0, 1, 2] 6 = Inr [0, 1, 2]"
  by (simp_all add: face_step_def js_at_def flat_areas)

lemma uint32_small: "to_uint 32 0 = 0" "to_uint 32 1 = 1" "to_uint 32 2 = 2"
  by (simp_all add: to_uint_def js_trunc_def)

lemma rdf_prim_rewrite:
  assumes "prim_mode prim = 4"
    and "getAttribute accs prim ''POSITION'' = Some (pr, pa)" and "acc_array pa = Some positions"
    and "getIndices accs prim = Some (ir, ia)" and "acc_array ia = Some indices"
    and "foldM (face_step minArea (elems positions) (elems indices)) []
             (map (\<lambda>k. k * 3) [0 ..< loop_count (length (elems indices)) 3]) = Inr valid"
    and "length valid < length (elems indices)"
  shows "removeDegenerateFaces_prim minArea accs prim
           = Inr (setArray ir \<lparr>kind = Uint32, elems = map (coerce Uint32) valid\<rparr> accs)"
  using assms by (simp add: removeDegenerateFaces_prim_def)

lemma clean_flat:
  "removeDegenerateFaces_prim (1 / 10000000000) flat_accessors flat_prim = Inr flat_cleaned"
proof -
  have p: "getAttribute flat_accessors flat_prim ''POSITION''
      = Some (0, \<lparr>acc_type = VEC3, acc_array = Some \<lparr>kind = Float32, elems = flat_positions\<rparr>\<rparr>)"
    by (simp add: getAttribute_def flat_prim_def flat_accessors_def)
  have i: "getIndices flat_accessors flat_prim
      = Some (1, \<lparr>acc_type = SCALAR,
            acc_array = Some \<lparr>kind = Uint16, elems = [0, 1, 2, 0, 1, 3, 0, 0, 1]\<rparr>\<rparr>)"
    by (simp add: getIndices_def flat_prim_def flat_accessors_def)
  have m: "prim_mode flat_prim = 4" by (simp add: flat_prim_def)
  have l: "foldM (face_step (1 / 10000000000) (elems \<lparr>kind = Float32, elems = flat_positions\<rparr>)
              (elems \<lparr>kind = Uint16, elems = [0, 1, 2, 0, 1, 3, 0, 0, 1]\<rparr>)) []
             (map (\<lambda>k. k * 3)
                [0 ..< loop_count (length (elems \<lparr>kind = Uint16, elems = [0, 1, 2, 0, 1, 3, 0, 0, 1]\<rparr>)) 3])
         = Inr [0, 1, 2]"
    by (simp add: loop_count_def upt_3 flat_steps)
  have n: "length [0, 1, 2::real] < length (elems \<lparr>kind = Uint16, elems = [0, 1, 2, 0, 1, 3, 0, 0, 1]\<rparr>)"
    by simp
  have s: "setArray 1 \<lparr>kind = Uint32, elems = map (coerce Uint32) [0, 1, 2]\<rparr> flat_accessors
      = flat_cleaned"
    by (simp add: setArray_def flat_accessors_def flat_cleaned_def uint32_small fun_eq_iff)
  from rdf_prim_rewrite [OF m p _ i _ l n] s show ?thesis by simp
qed

lemma clean_flat_doc:
  "removeDegenerateFaces (1 / 10000000000) flat_doc = Inr (flat_doc\<lparr>doc_accessors := flat_cleaned\<rparr>)"
  by (simp add: removeDegenerateFaces_flat all_primitives_def flat_doc_def clean_flat)

lemma rdf_fold_attributes:
  assumes run: "foldM (removeDegenerateFaces_prim minArea) accs ps = Inr accs'"
    and u: "\<forall>p \<in> set ps. list_all is_uint32 (index_values accs p)"
    and apart: "\<forall>p \<in> set ps. \<forall>q \<in> set ps. \<forall>r. prim_indices q = Some r \<longrightarrow> r \<notin> snd ` set (prim_attributes p)"
    and p: "prim \<in> set ps"
  shows "getAttribute accs' prim semantic = getAttribute accs prim semantic"
proof (cases "map_of (prim_attributes prim) semantic")
  case None
  then show ?thesis by (simp add: getAttribute_def)
next
  case (Some r)
  then have "r \<in> snd ` set (prim_attributes prim)"
    by (auto dest: map_of_SomeD intro: rev_image_eqI)
  with apart p have "\<forall>q \<in> set ps. prim_indices q \<noteq> Some r" by blast
  with rdf_fold_thins [OF run u] have "accs' r = accs r" by blast
  with Some show ?thesis by (simp add: getAttribute_def)
qed

subsection \<open>Claims about removeDegenerateFaces\<close>

text \<open>
  C7, amended. In a document no accessor of which is both a vertex attribute and an index
  buffer, and whose index arrays hold unsigned integers: whenever \<^verbatim>\<open>removeDegenerateFaces\<close>
  returns, every triangle primitive that has a position array and an index array, shared
  with other primitives or not, is left without a degenerate triangle (each index triple
  names three different vertices, and the area of the triangle, half the magnitude of the
  cross product of two of its edge vectors, is not below \<open>minArea\<close>), and every attribute
  of every primitive is the accessor it was, with the array it had.
\<close>

theorem removeDegenerateFaces_survivors:
  assumes "removeDegenerateFaces minArea doc = Inr doc'"
    and "indices_apart doc" and "indices_unsigned doc"
    and "prim \<in> set (all_primitives doc)" and "prim_mode prim = 4"
    and "getAttribute (doc_accessors doc) prim ''POSITION'' = Some (pr, pa)"
    and "acc_array pa = Some positions"
    and "getIndices (doc_accessors doc) prim = Some (ir, ia)"
    and "acc_array ia = Some indices"
  shows "no_degenerate_faces minArea (doc_accessors doc') prim
     \<and> (\<forall>q \<in> set (all_primitives doc). \<forall>semantic.
           getAttribute (doc_accessors doc') q semantic = getAttribute (doc_accessors doc) q semantic)"
proof
  let ?ps = "all_primitives doc" and ?accs = "doc_accessors doc"
  from assms(1) obtain accs' where
    run: "foldM (removeDegenerateFaces_prim minArea) ?accs ?ps = Inr accs'"
    and doc': "doc' = doc\<lparr>doc_accessors := accs'\<rparr>"
    by (auto simp: removeDegenerateFaces_flat split: sum.splits)
  from assms(3) have u: "\<forall>p \<in> set ?ps. list_all is_uint32 (index_values ?accs p)"
    by (simp add: indices_unsigned_def list_all_iff)
  from assms(2) have apart: "\<forall>p \<in> set ?ps. \<forall>q \<in> set ?ps. \<forall>r.
      prim_indices q = Some r \<longrightarrow> r \<notin> snd ` set (prim_attributes p)"
    by (auto simp: indices_apart_def list_all_iff split: option.splits)
  note res = rdf_fold_survivors [OF run u apart assms(4-9)]
  from res(3) [of "''POSITION''"] assms(6,7)
  have pos: "position_values accs' prim = elems positions"
    by (simp add: position_values_def)
  from assms(8) have ir: "prim_indices prim = Some ir" "?accs ir = Some ia"
    by (simp_all add: getIndices_Some)
  from rdf_fold_thins [OF run u] have "thinned (?accs ir) (accs' ir)" by blast
  with ir(2) obtain ia' where "accs' ir = Some ia'" by (auto simp: thinned_def)
  with ir(1) have "getIndices accs' prim = Some (ir, ia')" by (simp add: getIndices_Some)
  then have drawn: "drawn_triangles accs' prim = triples (index_values accs' prim)"
    by (simp add: drawn_triangles_def)
  from passes_all_nondegenerate [OF res(1) res(2)] pos drawn doc'
  show "no_degenerate_faces minArea (doc_accessors doc') prim"
    by (simp add: no_degenerate_faces_def)
  from rdf_fold_attributes [OF run u apart] doc'
  show "\<forall>q \<in> set (all_primitives doc). \<forall>semantic.
           getAttribute (doc_accessors doc') q semantic = getAttribute (doc_accessors doc) q semantic"
    by simp
qed

theorem removeDegenerateFaces_survivors_witness:
  "indices_apart flat_doc \<and> indices_unsigned flat_doc
   \<and> removeDegenerateFaces (1 / 10000000000) flat_doc
       = Inr (flat_doc\<lparr>doc_accessors := flat_cleaned\<rparr>)
   \<and> index_values flat_accessors flat_prim = [0, 1, 2, 0, 1, 3, 0, 0, 1]
   \<and> index_values flat_cleaned flat_prim = [0, 1, 2]
   \<and> triangle_area (vertex_position flat_positions 0) (vertex_position flat_positions 1)
         (vertex_position flat_positions 3) = 0
   \<and> no_degenerate_faces (1 / 10000000000) flat_cleaned flat_prim"
proof -
  have a: "indices_apart flat_doc"
    by (simp add: indices_apart_def all_primitives_def flat_doc_def flat_prim_def)
  have i0: "index_values flat_accessors flat_prim = [0, 1, 2, 0, 1, 3, 0, 0, 1]"
    by (simp add: index_values_def getIndices_def flat_prim_def flat_accessors_def)
  have i1: "index_values flat_cleaned flat_prim = [0, 1, 2]"
    by (simp add: index_values_def getIndices_def flat_prim_def flat_cleaned_def)
  from i0 have u: "indices_unsigned flat_doc"
    by (simp add: indices_unsigned_def all_primitives_def flat_doc_def is_uint32_def)
  have m: "flat_prim \<in> set (all_primitives flat_doc)" "prim_mode flat_prim = 4"
    by (simp_all add: all_primitives_def flat_doc_def flat_prim_def)
  have p: "getAttribute (doc_accessors flat_doc) flat_prim ''POSITION''
      = Some (0, \<lparr>acc_type = VEC3, acc_array = Some \<lparr>kind = Float32, elems = flat_positions\<rparr>\<rparr>)"
    by (simp add: getAttribute_def flat_prim_def flat_accessors_def flat_doc_def)
  have i: "getIndices (doc_accessors flat_doc) flat_prim
      = Some (1, \<lparr>acc_type = SCALAR,
            acc_array = Some \<lparr>kind = Uint16, elems = [0, 1, 2, 0, 1, 3, 0, 0, 1]\<rparr>\<rparr>)"
    by (simp add: getIndices_def flat_prim_def flat_accessors_def flat_doc_def)
  have z: "triangle_area (vertex_position flat_positions 0) (vertex_position flat_positions 1)
         (vertex_position flat_positions 3) = 0"
    by (simp add: triangle_area_def vertex_position_def flat_positions_def edge_vector_def
        cross_product_def magnitude_def)
  from removeDegenerateFaces_survivors [OF clean_flat_doc a u m p _ i] a u clean_flat_doc i0 i1 z
  show ?thesis by simp
qed

text \<open>
  C7 as stated speaks of every triangle primitive. The transform skips a primitive without
  an index accessor: the triangle of the example, whose three vertices lie on one line, is
  still drawn after the run, with area 0.
\<close>

theorem removeDegenerateFaces_unindexed_counterexample:
  "prim_mode soup_prim = 4
   \<and> removeDegenerateFaces (1 / 10000000000) soup_doc = Inr soup_doc
   \<and> drawn_triangles (doc_accessors soup_doc) soup_prim = [(0, 1, 2)]
   \<and> triangle_area (vertex_position (position_values (doc_accessors soup_doc) soup_prim) 0)
         (vertex_position (position_values (doc_accessors soup_doc) soup_prim) 1)
         (vertex_position (position_values (doc_accessors soup_doc) soup_prim) 2) = 0
   \<and> \<not> no_degenerate_faces (1 / 10000000000) (doc_accessors soup_doc) soup_prim"
proof -
  have g: "getIndices (doc_accessors soup_doc) soup_prim = None"
    by (simp add: getIndices_def soup_prim_def)
  have pv: "position_values (doc_accessors soup_doc) soup_prim = [0, 0, 0, 1, 0, 0, 2, 0, 0]"
    by (simp add: position_values_def getAttribute_def soup_prim_def soup_doc_def)
  have d: "drawn_triangles (doc_accessors soup_doc) soup_prim = [(0, 1, 2)]"
    by (simp add: drawn_triangles_def g vertex_count_def pv upt_3)
  have z: "triangle_area (vertex_position [0, 0, 0, 1, 0, 0, 2, 0, 0] 0)
         (vertex_position [0, 0, 0, 1, 0, 0, 2, 0, 0] 1)
         (vertex_position [0, 0, 0, 1, 0, 0, 2, 0, 0] 2) = 0"
    by (simp add: triangle_area_def vertex_position_def edge_vector_def
        cross_product_def magnitude_def)
  have r: "removeDegenerateFaces_prim (1 / 10000000000) (doc_accessors soup_doc) soup_prim
      = Inr (doc_accessors soup_doc)"
    by (rule rdf_prim_skip) (simp add: g)
  have "removeDegenerateFaces (1 / 10000000000) soup_doc = Inr soup_doc"
    using r by (simp add: removeDegenerateFaces_flat all_primitives_def) (simp add: soup_doc_def r)
  moreover have "\<not> no_degenerate_faces (1 / 10000000000) (doc_accessors soup_doc) soup_prim"
    using z by (simp add: no_degenerate_faces_def d pv nondegenerate_def)
  moreover have "prim_mode soup_prim = 4" by (simp add: soup_prim_def)
  ultimately show ?thesis using d z pv by simp
qed

subsection \<open>Accessors shared between primitives\<close>

text \<open>
  C5 fails on the code. Compacting writes the shared accessor, and only the primitive that
  is being visited gets its indices remapped. In the example the quad and the triangle
  behind it draw from one position accessor, and every index of both names one of its four
  vertices. The quad is visited first: the fourth vertex goes, its indices are remapped.
  The triangle then finds three vertices without duplicates and is left alone, with its
  index 3 pointing past the end of the vertex buffer.
\<close>

theorem mergeByDistance_shared_indices_dangle:
  "indices_valid multi_accessors quad_prim \<and> indices_valid multi_accessors back_prim
   \<and> mergeByDistance (1 / 10000) multi_doc = Inr (multi_doc\<lparr>doc_accessors := multi_merged\<rparr>)
   \<and> vertex_count multi_merged back_prim = 3
   \<and> index_values multi_merged back_prim = [3, 1, 2]
   \<and> \<not> indices_valid multi_merged back_prim"
proof -
  have v: "vertex_count multi_accessors quad_prim = 4" "vertex_count multi_accessors back_prim = 4"
    "vertex_count multi_merged back_prim = 3"
    by (simp_all add: vertex_count_def position_values_def getAttribute_def quad_prim_def
        back_prim_def multi_accessors_def multi_merged_def tri_positions_def)
  have i: "index_values multi_accessors quad_prim = [0, 1, 2, 3, 1, 2]"
    "index_values multi_accessors back_prim = [3, 1, 2]"
    "index_values multi_merged back_prim = [3, 1, 2]"
    by (simp_all add: index_values_def getIndices_def quad_prim_def back_prim_def
        multi_accessors_def multi_merged_def tri_indices_def)
  from v i merge_multi_doc show ?thesis
    by (simp add: indices_valid_def index_ok_def)
qed

text \<open>
  C9 fails on the code for the same reason. The point cloud of the example has no index
  accessor, and the transform skips it; but it draws from the position accessor of the
  quad, so the run that compacts the quad takes its fourth point away.
\<close>

theorem mergeByDistance_shared_positions_rewritten:
  "getIndices multi_accessors cloud_prim = None
   \<and> mergeByDistance_prim (1 / 10000) multi_accessors cloud_prim = Inr multi_accessors
   \<and> mergeByDistance (1 / 10000) multi_doc = Inr (multi_doc\<lparr>doc_accessors := multi_merged\<rparr>)
   \<and> position_values multi_accessors cloud_prim = [0, 0, 0, 1, 0, 0, 0, 1, 0, 0, 0, 0]
   \<and> position_values multi_merged cloud_prim = [0, 0, 0, 1, 0, 0, 0, 1, 0]"
proof -
  have g: "getIndices multi_accessors cloud_prim = None"
    by (simp add: getIndices_def cloud_prim_def)
  then have "mergeByDistance_prim (1 / 10000) multi_accessors cloud_prim = Inr multi_accessors"
    by (intro merge_prim_skip) simp
  moreover have "position_values multi_accessors cloud_prim = [0, 0, 0, 1, 0, 0, 0, 1, 0, 0, 0, 0]"
    "position_values multi_merged cloud_prim = [0, 0, 0, 1, 0, 0, 0, 1, 0]"
    by (simp_all add: position_values_def getAttribute_def cloud_prim_def multi_accessors_def
        multi_merged_def tri_positions_def)
  ultimately show ?thesis using g merge_multi_doc by simp
qed

subsection \<open>Primitives that share no accessor\<close>

lemma js_at_Inr: "js_at arr v = Inr x \<Longrightarrow> nat \<lfloor>v\<rfloor> < length arr \<and> x = arr ! nat \<lfloor>v\<rfloor> \<and> v = real (nat \<lfloor>v\<rfloor>)"
  by (auto simp: js_at_def split: if_splits)

lemma compact_fold_visits:
  assumes step: "\<And>x s r a a'. P x \<Longrightarrow> s \<in> set sems \<Longrightarrow> map_of (prim_attributes prim) s = Some r
                 \<Longrightarrow> x r = Some a \<Longrightarrow> compact_attribute n2o a = Inr a' \<Longrightarrow> P (x(r \<mapsto> a'))"
  shows "foldM (compact_semantic n2o prim) accs ss = Inr accs' \<Longrightarrow> set ss \<subseteq> set sems \<Longrightarrow> P accs
         \<Longrightarrow> P accs'"
proof (induction ss arbitrary: accs)
  case Nil
  then show ?case by simp
next
  case (Cons s ss)
  from Cons.prems(1) obtain mid where
    one: "compact_semantic n2o prim accs s = Inr mid"
    and rest: "foldM (compact_semantic n2o prim) mid ss = Inr accs'"
    by (auto split: sum.splits)
  have "P mid"
  proof (cases "getAttribute accs prim s")
    case None
    with one Cons.prems(3) show ?thesis by (simp add: compact_semantic_def)
  next
    case (Some ra)
    obtain r a where ra: "ra = (r, a)" by (cases ra) auto
    with Some have r: "map_of (prim_attributes prim) s = Some r" and a: "accs r = Some a"
      by (simp_all add: getAttribute_Some)
    from one Some ra obtain a' where c: "compact_attribute n2o a = Inr a'" and m: "mid = accs(r \<mapsto> a')"
      by (auto simp: compact_semantic_def split: sum.splits)
    from Cons.prems(2) have "s \<in> set sems" by simp
    from step [OF Cons.prems(3) this r a c] m show ?thesis by simp
  qed
  with Cons.IH [OF rest] Cons.prems(2) show ?case by simp
qed

lemma compact_fold_frame:
  assumes "foldM (compact_semantic n2o prim) accs sems = Inr accs'"
    and "\<forall>s \<in> set sems. map_of (prim_attributes prim) s \<noteq> Some r"
  shows "accs' r = accs r"
proof -
  have "accs' r = accs r"
  proof (rule compact_fold_visits [where P = "\<lambda>x. x r = accs r" and sems = sems, OF _ assms(1)])
    show "set sems \<subseteq> set sems" by simp
    show "accs r = accs r" by simp
  next
    fix x s r' a a'
    assume "x r = accs r" "s \<in> set sems" "map_of (prim_attributes prim) s = Some r'"
    with assms(2) show "(x(r' \<mapsto> a')) r = accs r" by auto
  qed
  then show ?thesis .
qed

lemma merge_prim_frame:
  assumes m: "mergeByDistance_prim tolerance accs prim = Inr accs'" and r: "r \<notin> refs prim"
  shows "accs' r = accs r"
proof (cases "getAttribute accs prim ''POSITION'' = None \<or> getIndices accs prim = None
      \<or> (\<exists>r a. getAttribute accs prim ''POSITION'' = Some (r, a) \<and> acc_array a = None)
      \<or> (\<exists>r a. getIndices accs prim = Some (r, a) \<and> acc_array a = None)")
  case True
  from merge_prim_skip [OF this, of tolerance] m show ?thesis by simp
next
  case False
  then obtain pr pa positions ir ia indices where
    pa: "getAttribute accs prim ''POSITION'' = Some (pr, pa)" and ps: "acc_array pa = Some positions"
    and ia: "getIndices accs prim = Some (ir, ia)" and ix: "acc_array ia = Some indices"
    by auto
  from m pa ps ia ix show ?thesis
  proof (cases rule: merge_prim_cases)
    case (same vm remap n2o)
    then show ?thesis by simp
  next
    case (rewritten vm remap n2o newIndices mid)
    from r have "\<forall>s \<in> set (listSemantics prim). map_of (prim_attributes prim) s \<noteq> Some r"
      by (auto simp: refs_def dest!: map_of_SomeD intro: rev_image_eqI)
    from compact_fold_frame [OF rewritten(4) this] have "mid r = accs r" .
    moreover from ia r have "r \<noteq> ir" by (auto simp: refs_def getIndices_Some)
    ultimately show ?thesis using rewritten(5) by (simp add: setArray_apply)
  qed
qed

lemma map_of_ref_inj:
  assumes "distinct (map snd attrs)" and "map_of attrs s = Some r" and "map_of attrs s' = Some r"
  shows "s = s'"
proof -
  from assms(2,3) have "(s, r) \<in> set attrs" "(s', r) \<in> set attrs"
    by (auto dest: map_of_SomeD)
  moreover from assms(1) have "inj_on snd (set attrs)" by (simp add: distinct_map)
  ultimately show ?thesis
    using inj_onD [of snd "set attrs" "(s, r)" "(s', r)"] by simp
qed

text \<open>With pairwise different semantics and references, every accessor is compacted once.\<close>

lemma compact_fold_once:
  assumes d: "distinct (map snd (prim_attributes prim))"
  shows "foldM (compact_semantic n2o prim) accs sems = Inr mid \<Longrightarrow> distinct sems
         \<Longrightarrow> s0 \<in> set sems \<Longrightarrow> map_of (prim_attributes prim) s0 = Some r \<Longrightarrow> accs r = Some a
         \<Longrightarrow> \<exists>a'. compact_attribute n2o a = Inr a' \<and> mid r = Some a'"
proof (induction sems arbitrary: accs)
  case Nil
  then show ?case by simp
next
  case (Cons s sems)
  from Cons.prems(1) obtain accs1 where
    one: "compact_semantic n2o prim accs s = Inr accs1"
    and rest: "foldM (compact_semantic n2o prim) accs1 sems = Inr mid"
    by (auto split: sum.splits)
  from Cons.prems(2) have ds: "distinct sems" "s \<notin> set sems" by simp_all
  show ?case
  proof (cases "s = s0")
    case True
    with Cons.prems(4,5) have "getAttribute accs prim s = Some (r, a)"
      by (simp add: getAttribute_Some)
    with one obtain a' where c: "compact_attribute n2o a = Inr a'" and a1: "accs1 = accs(r \<mapsto> a')"
      by (auto simp: compact_semantic_def split: sum.splits)
    have "\<forall>s' \<in> set sems. map_of (prim_attributes prim) s' \<noteq> Some r"
    proof
      fix s' assume s': "s' \<in> set sems"
      show "map_of (prim_attributes prim) s' \<noteq> Some r"
      proof
        assume "map_of (prim_attributes prim) s' = Some r"
        from map_of_ref_inj [OF d this Cons.prems(4)] s' ds(2) True show False by simp
      qed
    qed
    from compact_fold_frame [OF rest this] a1 have "mid r = Some a'" by simp
    with c show ?thesis by blast
  next
    case False
    with Cons.prems(3) have in_rest: "s0 \<in> set sems" by simp
    have "accs1 r = Some a"
    proof (cases "getAttribute accs prim s")
      case None
      with one Cons.prems(5) show ?thesis by (simp add: compact_semantic_def)
    next
      case (Some ra)
      obtain r1 a1 where ra: "ra = (r1, a1)" by (cases ra) auto
      with Some have r1: "map_of (prim_attributes prim) s = Some r1"
        by (simp add: getAttribute_Some)
      from one Some ra obtain a' where "accs1 = accs(r1 \<mapsto> a')"
        by (auto simp: compact_semantic_def split: sum.splits)
      moreover have "r1 \<noteq> r"
      proof
        assume "r1 = r"
        with r1 map_of_ref_inj [OF d _ Cons.prems(4), of s] False show False by simp
      qed
      ultimately show ?thesis using Cons.prems(5) by simp
    qed
    from Cons.IH [OF rest ds(1) in_rest Cons.prems(4) this] show ?thesis .
  qed
qed

text \<open>
  The step for a primitive with pairwise different references: the vertex count does not
  grow, and valid indices stay valid.
\<close>

lemma merge_prim_own:
  assumes m: "mergeByDistance_prim tolerance accs prim = Inr accs'"
    and sep: "separate_refs prim" and vec3: "position_vec3 accs prim"
    and valid: "indices_valid accs prim"
  shows "vertex_count accs' prim \<le> vertex_count accs prim \<and> indices_valid accs' prim"
proof (cases "getAttribute accs prim ''POSITION'' = None \<or> getIndices accs prim = None
      \<or> (\<exists>r a. getAttribute accs prim ''POSITION'' = Some (r, a) \<and> acc_array a = None)
      \<or> (\<exists>r a. getIndices accs prim = Some (r, a) \<and> acc_array a = None)")
  case True
  from merge_prim_skip [OF this, of tolerance] m valid show ?thesis by simp
next
  case False
  then obtain pr pa positions ir ia indices where
    pa: "getAttribute accs prim ''POSITION'' = Some (pr, pa)" and ps: "acc_array pa = Some positions"
    and ia: "getIndices accs prim = Some (ir, ia)" and ix: "acc_array ia = Some indices"
    by auto
  let ?n = "length (elems positions) div 3"
  from pa ps have vc: "vertex_count accs prim = ?n"
    by (simp add: vertex_count_def position_values_def)
  from vec3 pa have t: "acc_type pa = VEC3" by (simp add: position_vec3_def)
  from m pa ps ia ix show ?thesis
  proof (cases rule: merge_prim_cases)
    case (same vm remap n2o)
    with valid show ?thesis by simp
  next
    case (rewritten vm remap n2o newIndices mid)
    from build_hash_Inr(2) [OF rewritten(1)]
    have inv: "hash_inv (1 / tolerance) (elems positions) ?n (vm, remap, n2o)" .
    from pa have pr: "map_of (prim_attributes prim) ''POSITION'' = Some pr" "accs pr = Some pa"
      by (simp_all add: getAttribute_Some)
    from ia have ir: "prim_indices prim = Some ir" "accs ir = Some ia"
      by (simp_all add: getIndices_Some)
    from sep have d: "distinct (listSemantics prim)" "distinct (map snd (prim_attributes prim))"
      by (simp_all add: separate_refs_def listSemantics_def)
    from pr(1) have mem: "''POSITION'' \<in> set (listSemantics prim)"
      by (auto simp: listSemantics_def dest: map_of_SomeD intro: rev_image_eqI)
    from compact_fold_once [OF d(2) rewritten(4) d(1) mem pr] obtain pa' where
      c: "compact_attribute n2o pa = Inr pa'" and mp: "mid pr = Some pa'" by blast
    from compact_cells [OF c t ps, of "1 / tolerance"] obtain vs where
      pa': "pa' = pa\<lparr>acc_array := Some (positions\<lparr>elems := vs\<rparr>)\<rparr>" and len: "length vs = length n2o * 3"
      by blast
    from pr(1) have "pr \<in> snd ` set (prim_attributes prim)"
      by (auto dest: map_of_SomeD intro: rev_image_eqI)
    with sep ir(1) have ne: "pr \<noteq> ir" by (auto simp: separate_refs_def)
    with mp rewritten(5) have "accs' pr = Some pa'" by (simp add: setArray_apply)
    with pr(1) pa' len have vc': "vertex_count accs' prim = length n2o"
      by (simp add: vertex_count_def position_values_def getAttribute_def)
    from same_shape_Some [OF compact_fold_shape [OF rewritten(4)] ir(2)]
    obtain x where "mid ir = Some x" by blast
    with rewritten(5) ir(1) have iv: "index_values accs' prim = map real newIndices"
      by (simp add: index_values_def getIndices_def setArray_apply)
    have "list_all (\<lambda>k. k < length n2o) newIndices"
      unfolding list_all_length
    proof (intro allI impI)
      fix i assume i: "i < length newIndices"
      with mapM_length [OF rewritten(3)] have "i < length (elems indices)" by simp
      from mapM_nth [OF rewritten(3) this] have "js_at remap (elems indices ! i) = Inr (newIndices ! i)" .
      from js_at_Inr [OF this] hash_inv_bounds(1) [OF inv]
      have "nat \<lfloor>elems indices ! i\<rfloor> < length (elems positions) div 3"
        "newIndices ! i = remap ! nat \<lfloor>elems indices ! i\<rfloor>" by simp_all
      with hash_inv_bounds(2) [OF inv] show "newIndices ! i < length n2o" by simp
    qed
    with hash_inv_le [OF inv] vc vc' iv show ?thesis
      by (simp add: indices_valid_def list_all_iff index_ok_def)
  qed
qed

lemma refs_agree:
  assumes "\<forall>r \<in> refs prim. accs' r = accs r"
  shows "getAttribute accs' prim semantic = getAttribute accs prim semantic"
    and "getIndices accs' prim = getIndices accs prim"
proof -
  show "getAttribute accs' prim semantic = getAttribute accs prim semantic"
  proof (cases "map_of (prim_attributes prim) semantic")
    case None
    then show ?thesis by (simp add: getAttribute_def)
  next
    case (Some r)
    then have "r \<in> refs prim"
      by (auto simp: refs_def dest: map_of_SomeD intro: rev_image_eqI)
    with assms Some show ?thesis by (simp add: getAttribute_def)
  qed
  show "getIndices accs' prim = getIndices accs prim"
  proof (cases "prim_indices prim")
    case None
    then show ?thesis by (simp add: getIndices_def)
  next
    case (Some r)
    then have "r \<in> refs prim" by (simp add: refs_def)
    with assms Some show ?thesis by (simp add: getIndices_def)
  qed
qed

lemma merge_fold_own:
  assumes sep: "separate_refs prim"
    and others: "\<forall>q \<in> set ps. q = prim \<or> refs q \<inter> refs prim = {}"
  shows "foldM (mergeByDistance_prim tolerance) accs ps = Inr accs' \<Longrightarrow>
         position_vec3 accs prim \<Longrightarrow> indices_valid accs prim \<Longrightarrow>
         vertex_count accs' prim \<le> vertex_count accs prim \<and> indices_valid accs' prim"
  using others
proof (induction ps arbitrary: accs)
  case Nil
  then show ?case by simp
next
  case (Cons q ps)
  from Cons.prems(1) obtain mid where
    one: "mergeByDistance_prim tolerance accs q = Inr mid"
    and rest: "foldM (mergeByDistance_prim tolerance) mid ps = Inr accs'"
    by (auto split: sum.splits)
  from Cons.prems(4) have oth: "\<forall>q \<in> set ps. q = prim \<or> refs q \<inter> refs prim = {}" by simp
  have step: "vertex_count mid prim \<le> vertex_count accs prim \<and> indices_valid mid prim"
  proof (cases "q = prim")
    case True
    with one merge_prim_own [OF _ sep Cons.prems(2,3)] show ?thesis by simp
  next
    case False
    with Cons.prems(4) have "refs q \<inter> refs prim = {}" by simp
    then have "\<forall>r \<in> refs prim. r \<notin> refs q" by auto
    with merge_prim_frame [OF one] have "\<forall>r \<in> refs prim. mid r = accs r" by simp
    from refs_agree [OF this] Cons.prems(3) show ?thesis
      by (simp add: vertex_count_def position_values_def indices_valid_def index_values_def)
  qed
  from same_shape_typed(1) [OF merge_prim_shape [OF one]] Cons.prems(2)
  have "position_vec3 mid prim" by simp
  from Cons.IH [OF rest this _ oth] step show ?case by auto
qed

text \<open>
  What C5 says holds for every primitive that shares none of its accessors: after the run
  it has no more vertices than before, and every index names one of them.
\<close>

lemma mergeByDistance_unshared_in_range:
  assumes "mergeByDistance tolerance doc = Inr doc'" and "unshared doc prim"
    and "position_vec3 (doc_accessors doc) prim" and "indices_valid (doc_accessors doc) prim"
  shows "vertex_count (doc_accessors doc') prim \<le> vertex_count (doc_accessors doc) prim
     \<and> indices_valid (doc_accessors doc') prim"
proof -
  from assms(1) obtain accs' where
    run: "foldM (mergeByDistance_prim tolerance) (doc_accessors doc) (all_primitives doc) = Inr accs'"
    and doc': "doc' = doc\<lparr>doc_accessors := accs'\<rparr>"
    by (auto simp: mergeByDistance_flat split: sum.splits)
  from assms(2) have sep: "separate_refs prim"
    and others: "\<forall>q \<in> set (all_primitives doc). q = prim \<or> refs q \<inter> refs prim = {}"
    by (simp_all add: unshared_def list_all_iff)
  from merge_fold_own [OF sep others run assms(3,4)] doc' show ?thesis by simp
qed

text \<open>
  What C9 says holds for every primitive that shares none of its accessors: when it lacks
  the position accessor, the index accessor or one of their arrays, the run leaves all its
  accessors as they are.
\<close>

lemma mergeByDistance_unshared_frame:
  assumes run: "mergeByDistance tolerance doc = Inr doc'" and un: "unshared doc prim"
    and skip: "getAttribute (doc_accessors doc) prim ''POSITION'' = None
      \<or> getIndices (doc_accessors doc) prim = None
      \<or> (\<exists>r a. getAttribute (doc_accessors doc) prim ''POSITION'' = Some (r, a) \<and> acc_array a = None)
      \<or> (\<exists>r a. getIndices (doc_accessors doc) prim = Some (r, a) \<and> acc_array a = None)"
  shows "\<forall>r \<in> refs prim. doc_accessors doc' r = doc_accessors doc r"
proof -
  let ?accs = "doc_accessors doc"
  from run obtain accs' where
    f: "foldM (mergeByDistance_prim tolerance) ?accs (all_primitives doc) = Inr accs'"
    and doc': "doc' = doc\<lparr>doc_accessors := accs'\<rparr>"
    by (auto simp: mergeByDistance_flat split: sum.splits)
  from un have others: "\<forall>q \<in> set (all_primitives doc). q = prim \<or> refs q \<inter> refs prim = {}"
    by (simp add: unshared_def list_all_iff)
  have "foldM (mergeByDistance_prim tolerance) x ps = Inr accs' \<Longrightarrow>
        \<forall>q \<in> set ps. q = prim \<or> refs q \<inter> refs prim = {} \<Longrightarrow>
        \<forall>r \<in> refs prim. x r = ?accs r \<Longrightarrow> \<forall>r \<in> refs prim. accs' r = ?accs r" for x ps
  proof (induction ps arbitrary: x)
    case Nil
    then show ?case by simp
  next
    case (Cons q ps)
    from Cons.prems(1) obtain mid where
      one: "mergeByDistance_prim tolerance x q = Inr mid"
      and rest: "foldM (mergeByDistance_prim tolerance) mid ps = Inr accs'"
      by (auto split: sum.splits)
    have "\<forall>r \<in> refs prim. mid r = ?accs r"
    proof (cases "q = prim")
      case True
      from refs_agree [OF Cons.prems(3)] skip
      have "getAttribute x prim ''POSITION'' = None \<or> getIndices x prim = None
        \<or> (\<exists>r a. getAttribute x prim ''POSITION'' = Some (r, a) \<and> acc_array a = None)
        \<or> (\<exists>r a. getIndices x prim = Some (r, a) \<and> acc_array a = None)"
        by simp
      from merge_prim_skip [OF this, of tolerance] one True Cons.prems(3) show ?thesis by simp
    next
      case False
      with Cons.prems(2) have disj: "refs q \<inter> refs prim = {}" by simp
      show ?thesis
      proof
        fix r assume r: "r \<in> refs prim"
        with disj have "r \<notin> refs q" by auto
        from merge_prim_frame [OF one this] Cons.prems(3) r show "mid r = ?accs r" by simp
      qed
    qed
    from Cons.IH [OF rest _ this] Cons.prems(2) show ?case by simp
  qed
  from this [OF f others] doc' show ?thesis by simp
qed

subsection \<open>The rewritten index buffer\<close>

lemma mapM_at_eq:
  assumes "mapM (js_at remap) xs = Inr ys"
  shows "ys = map (\<lambda>v. remap ! nat \<lfloor>v\<rfloor>) xs"
proof (rule nth_equalityI)
  show "length ys = length (map (\<lambda>v. remap ! nat \<lfloor>v\<rfloor>) xs)"
    using mapM_length [OF assms] by simp
  fix i assume "i < length ys"
  with mapM_length [OF assms] have i: "i < length xs" by simp
  have "js_at remap (xs ! i) = Inr (ys ! i)" by (rule mapM_nth [OF assms i])
  then have "ys ! i = remap ! nat \<lfloor>xs ! i\<rfloor>"
    by (auto simp: js_at_def split: if_splits)
  with i show "ys ! i = map (\<lambda>v. remap ! nat \<lfloor>v\<rfloor>) xs ! i" by simp
qed

lemma set_same_type:
  "acc_type x = acc_type (a::accessor) \<Longrightarrow> x\<lparr>acc_array := v\<rparr> = a\<lparr>acc_array := v\<rparr>"
  by (cases x; cases a) simp

text \<open>
  C10. When \<^verbatim>\<open>mergeByDistance\<close> rewrites for a primitive, the new index array is a
  \<^verbatim>\<open>Uint32Array\<close> whose values are the old ones sent through the remap table. When
  \<^verbatim>\<open>removeDegenerateFaces\<close> rewrites, the new index array is a \<^verbatim>\<open>Uint32Array\<close>
  made of a subsequence of the old values, which are stored unchanged when the old array held
  unsigned integers. The element type of the old array plays no part.
\<close>

theorem index_buffer_rewritten_as_uint32:
  "(mergeByDistance_prim tolerance accs prim = Inr accs' \<and> accs' \<noteq> accs \<longrightarrow>
      (\<exists>pr pa positions ir ia old vm remap n2o.
          getAttribute accs prim ''POSITION'' = Some (pr, pa) \<and> acc_array pa = Some positions
        \<and> getIndices accs prim = Some (ir, ia) \<and> acc_array ia = Some old
        \<and> build_hash (1 / tolerance) (elems positions) = Inr (vm, remap, n2o)
        \<and> accs' ir = Some (ia\<lparr>acc_array := Some
              \<lparr>kind = Uint32, elems = map (\<lambda>v. real (remap ! nat \<lfloor>v\<rfloor>)) (elems old)\<rparr>\<rparr>)))
   \<and> (removeDegenerateFaces_prim minArea accs prim = Inr accs' \<and> accs' \<noteq> accs \<longrightarrow>
      (\<exists>ir ia old valid.
          getIndices accs prim = Some (ir, ia) \<and> acc_array ia = Some old \<and> subseq valid (elems old)
        \<and> accs' ir = Some (ia\<lparr>acc_array := Some
              \<lparr>kind = Uint32, elems = map (coerce Uint32) valid\<rparr>\<rparr>)
        \<and> (list_all is_uint32 (elems old) \<longrightarrow> map (coerce Uint32) valid = valid)))"
proof (intro conjI impI)
  assume a: "mergeByDistance_prim tolerance accs prim = Inr accs' \<and> accs' \<noteq> accs"
  with merge_prim_skip [of accs prim tolerance] obtain pr pa positions ir ia old where
    pa: "getAttribute accs prim ''POSITION'' = Some (pr, pa)" and ps: "acc_array pa = Some positions"
    and ia: "getIndices accs prim = Some (ir, ia)" and ix: "acc_array ia = Some old"
    by fastforce
  from a have m: "mergeByDistance_prim tolerance accs prim = Inr accs'" by simp
  from m pa ps ia ix show "\<exists>pr pa positions ir ia old vm remap n2o.
          getAttribute accs prim ''POSITION'' = Some (pr, pa) \<and> acc_array pa = Some positions
        \<and> getIndices accs prim = Some (ir, ia) \<and> acc_array ia = Some old
        \<and> build_hash (1 / tolerance) (elems positions) = Inr (vm, remap, n2o)
        \<and> accs' ir = Some (ia\<lparr>acc_array := Some
              \<lparr>kind = Uint32, elems = map (\<lambda>v. real (remap ! nat \<lfloor>v\<rfloor>)) (elems old)\<rparr>\<rparr>)"
  proof (cases rule: merge_prim_cases)
    case (same vm remap n2o)
    with a show ?thesis by simp
  next
    case (rewritten vm remap n2o newIndices mid)
    from ia have "accs ir = Some ia" by (simp add: getIndices_Some)
    from same_shape_Some [OF compact_fold_shape [OF rewritten(4)] this]
    obtain x where x: "mid ir = Some x" "acc_type x = acc_type ia" by blast
    from mapM_at_eq [OF rewritten(3)] rewritten(5) x(1) set_same_type [OF x(2)]
    have "accs' ir = Some (ia\<lparr>acc_array := Some
              \<lparr>kind = Uint32, elems = map (\<lambda>v. real (remap ! nat \<lfloor>v\<rfloor>)) (elems old)\<rparr>\<rparr>)"
      by (simp add: setArray_apply comp_def)
    with pa ps ia ix rewritten(1) show ?thesis by blast
  qed
next
  assume a: "removeDegenerateFaces_prim minArea accs prim = Inr accs' \<and> accs' \<noteq> accs"
  with rdf_prim_skip [of prim accs minArea] obtain pr pa positions ir ia old where
    mode: "prim_mode prim = 4"
    and pa: "getAttribute accs prim ''POSITION'' = Some (pr, pa)" and ps: "acc_array pa = Some positions"
    and ia: "getIndices accs prim = Some (ir, ia)" and ix: "acc_array ia = Some old"
    by fastforce
  from a have r: "removeDegenerateFaces_prim minArea accs prim = Inr accs'" by simp
  from r mode pa ps ia ix show "\<exists>ir ia old valid.
          getIndices accs prim = Some (ir, ia) \<and> acc_array ia = Some old \<and> subseq valid (elems old)
        \<and> accs' ir = Some (ia\<lparr>acc_array := Some
              \<lparr>kind = Uint32, elems = map (coerce Uint32) valid\<rparr>\<rparr>)
        \<and> (list_all is_uint32 (elems old) \<longrightarrow> map (coerce Uint32) valid = valid)"
  proof (cases rule: rdf_prim_cases)
    case same
    with a show ?thesis by simp
  next
    case (rewritten valid)
    from ia have "accs ir = Some ia" by (simp add: getIndices_Some)
    with rewritten(5) have "accs' ir = Some (ia\<lparr>acc_array := Some
              \<lparr>kind = Uint32, elems = map (coerce Uint32) valid\<rparr>\<rparr>)"
      by (simp add: setArray_apply)
    with ia ix rewritten(1) subseq_uint32 [OF rewritten(1)] show ?thesis by blast
  qed
qed

theorem index_buffer_rewritten_as_uint32_witness:
  "mergeByDistance_prim (1 / 10000) quad_accessors quad_prim = Inr quad_merged
   \<and> quad_merged \<noteq> quad_accessors
   \<and> (\<exists>ir ia old remap.
          getIndices quad_accessors quad_prim = Some (ir, ia) \<and> acc_array ia = Some old
        \<and> kind old = Uint16
        \<and> quad_merged ir = Some (ia\<lparr>acc_array := Some
              \<lparr>kind = Uint32, elems = map (\<lambda>v. real (remap ! nat \<lfloor>v\<rfloor>)) (elems old)\<rparr>\<rparr>))
   \<and> removeDegenerateFaces_prim (1 / 10000000000) flat_accessors flat_prim = Inr flat_cleaned
   \<and> flat_cleaned \<noteq> flat_accessors
   \<and> (\<exists>ir ia old valid.
          getIndices flat_accessors flat_prim = Some (ir, ia) \<and> acc_array ia = Some old
        \<and> kind old = Uint16 \<and> subseq valid (elems old)
        \<and> flat_cleaned ir = Some (ia\<lparr>acc_array := Some
              \<lparr>kind = Uint32, elems = map (coerce Uint32) valid\<rparr>\<rparr>))"
proof -
  have ne1: "quad_merged \<noteq> quad_accessors"
  proof
    assume "quad_merged = quad_accessors"
    then have "quad_merged 1 = quad_accessors 1" by simp
    then show False by (simp add: quad_merged_def quad_accessors_def tri_indices_def)
  qed
  have ne2: "flat_cleaned \<noteq> flat_accessors"
  proof
    assume "flat_cleaned = flat_accessors"
    then have "flat_cleaned 1 = flat_accessors 1" by simp
    then show False by (simp add: flat_cleaned_def flat_accessors_def)
  qed
  have k1: "getIndices quad_accessors quad_prim
      = Some (1, \<lparr>acc_type = SCALAR, acc_array = Some tri_indices\<rparr>)" "kind tri_indices = Uint16"
    by (simp_all add: getIndices_def quad_prim_def quad_accessors_def tri_indices_def)
  have k2: "getIndices flat_accessors flat_prim
      = Some (1, \<lparr>acc_type = SCALAR,
            acc_array = Some \<lparr>kind = Uint16, elems = [0, 1, 2, 0, 1, 3, 0, 0, 1]\<rparr>\<rparr>)"
    by (simp add: getIndices_def flat_prim_def flat_accessors_def)
  from index_buffer_rewritten_as_uint32 [of "1 / 10000" quad_accessors quad_prim quad_merged 0]
    merge_quad ne1 k1
  have a: "\<exists>ir ia old remap.
          getIndices quad_accessors quad_prim = Some (ir, ia) \<and> acc_array ia = Some old
        \<and> kind old = Uint16
        \<and> quad_merged ir = Some (ia\<lparr>acc_array := Some
              \<lparr>kind = Uint32, elems = map (\<lambda>v. real (remap ! nat \<lfloor>v\<rfloor>)) (elems old)\<rparr>\<rparr>)"
    by auto
  from index_buffer_rewritten_as_uint32 [of 1 flat_accessors flat_prim flat_cleaned "1 / 10000000000"]
    clean_flat ne2 k2
  have b: "\<exists>ir ia old valid.
          getIndices flat_accessors flat_prim = Some (ir, ia) \<and> acc_array ia = Some old
        \<and> kind old = Uint16 \<and> subseq valid (elems old)
        \<and> flat_cleaned ir = Some (ia\<lparr>acc_array := Some
              \<lparr>kind = Uint32, elems = map (coerce Uint32) valid\<rparr>\<rparr>)"
    by auto
  from merge_quad ne1 a clean_flat ne2 b show ?thesis by blast
qed

subsection \<open>The deletion pass\<close>

lemma detach_unreferenced:
  "sampler_parents sid channels \<le> 1 \<Longrightarrow> map (detach sid) channels = channels"
  by (induction channels) (auto simp: sampler_parents_def detach_def split: if_splits)

lemma unreferenced:
  "sampler_parents sid channels \<le> 1 \<Longrightarrow> c \<in> set channels \<Longrightarrow> ch_sampler c \<noteq> Some sid"
  by (induction channels) (auto simp: sampler_parents_def split: if_splits)

lemma pass3_step_removed:
  assumes "\<not> (ch_targetNode c = None \<or> ch_targetPath c = None)" and "inRemovable c"
  shows "pass3_channels tolerance inRemovable kept samplers (c # cs) =
     (case ch_sampler c of
           None \<Rightarrow> pass3_channels tolerance inRemovable kept samplers cs
         | Some sid \<Rightarrow>
             if samplers sid \<noteq> None \<and> sampler_parents sid (kept @ cs) \<le> 1
             then pass3_channels tolerance inRemovable (map (detach sid) kept)
                    (samplers(sid := None)) (map (detach sid) cs)
             else pass3_channels tolerance inRemovable kept samplers cs)"
  using assms by (cases "ch_targetNode c"; cases "ch_targetPath c"; simp)

lemma pass3_step_kept:
  assumes "\<not> (ch_targetNode c = None \<or> ch_targetPath c = None)" and "\<not> inRemovable c"
  shows "pass3_channels tolerance inRemovable kept samplers (c # cs) =
     (case kept_channel_scan tolerance samplers c of
              Inl e \<Rightarrow> Inl e
            | Inr static \<Rightarrow> pass3_channels tolerance inRemovable (kept @ [c]) samplers cs)"
  using assms by (cases "ch_targetNode c"; cases "ch_targetPath c"; simp)

lemma pass3_channels_keeps:
  "pass3_channels tolerance inRemovable kept samplers cs = Inr (kept', samplers') \<Longrightarrow>
   kept' = kept @ filter (\<lambda>c. \<not> disposed inRemovable c) cs
   \<and> (\<forall>sid. samplers' sid = samplers sid
          \<or> (samplers' sid = None \<and> (\<forall>c \<in> set kept'. ch_sampler c \<noteq> Some sid)
               \<and> (\<exists>c \<in> set cs. disposed inRemovable c \<and> ch_sampler c = Some sid)))"
proof (induction tolerance inRemovable kept samplers cs arbitrary: kept' samplers'
    rule: pass3_channels.induct)
  case (1 tolerance inRemovable kept samplers)
  then show ?case by simp
next
  case (2 tolerance inRemovable kept samplers c cs)
  show ?case
  proof (cases "ch_targetNode c = None \<or> ch_targetPath c = None")
    case True
    with "2.prems" have "pass3_channels tolerance inRemovable (kept @ [c]) samplers cs
        = Inr (kept', samplers')" by simp
    from "2.IH"(1) [OF True this] True show ?thesis
      by (auto simp: disposed_def)
  next
    case target: False
    show ?thesis
    proof (cases "inRemovable c")
      case False
      with "2.prems" pass3_step_kept [where c = c and inRemovable = inRemovable and tolerance = tolerance
          and kept = kept and samplers = samplers and cs = cs, OF target False]
      obtain static where
        "kept_channel_scan tolerance samplers c = Inr static"
        "pass3_channels tolerance inRemovable (kept @ [c]) samplers cs = Inr (kept', samplers')"
        by (auto split: sum.splits)
      from "2.IH"(5) [OF target False this] False show ?thesis
        by (auto simp: disposed_def)
    next
      case rem: True
      with target have d: "disposed inRemovable c" by (simp add: disposed_def)
      note step = pass3_step_removed [where c = c and inRemovable = inRemovable
          and tolerance = tolerance and kept = kept and samplers = samplers and cs = cs,
          OF target rem]
      show ?thesis
      proof (cases "ch_sampler c")
        case None
        with step "2.prems" have
          "pass3_channels tolerance inRemovable kept samplers cs = Inr (kept', samplers')" by simp
        from "2.IH"(2) [OF target rem None this] d show ?thesis by auto
      next
        case (Some sid)
        show ?thesis
        proof (cases "samplers sid \<noteq> None \<and> sampler_parents sid (kept @ cs) \<le> 1")
          case False
          with step Some "2.prems" have
            "pass3_channels tolerance inRemovable kept samplers cs = Inr (kept', samplers')"
            by auto
          from "2.IH"(4) [OF target rem Some False this] d show ?thesis by auto
        next
          case True
          then have par: "sampler_parents sid (kept @ cs) \<le> 1" by simp
          from detach_unreferenced [OF par] have same: "map (detach sid) kept = kept"
            "map (detach sid) cs = cs" by simp_all
          from True step Some "2.prems" same have run:
            "pass3_channels tolerance inRemovable (map (detach sid) kept) (samplers(sid := None))
               (map (detach sid) cs) = Inr (kept', samplers')" by simp
          from "2.IH"(3) [OF target rem Some True run, unfolded same]
          have k: "kept' = kept @ filter (\<lambda>c. \<not> disposed inRemovable c) cs"
            and s: "\<forall>sid'. samplers' sid' = (samplers(sid := None)) sid'
                \<or> (samplers' sid' = None \<and> (\<forall>c \<in> set kept'. ch_sampler c \<noteq> Some sid')
                     \<and> (\<exists>c \<in> set cs. disposed inRemovable c \<and> ch_sampler c = Some sid'))"
            by blast+
          from k have sub: "set kept' \<subseteq> set (kept @ cs)" by auto
          have "samplers' sid' = samplers sid'
              \<or> (samplers' sid' = None \<and> (\<forall>c \<in> set kept'. ch_sampler c \<noteq> Some sid')
                   \<and> (\<exists>c \<in> set (c # cs). disposed inRemovable c \<and> ch_sampler c = Some sid'))"
            for sid'
          proof (cases "sid' = sid")
            case False
            with s [rule_format, of sid'] show ?thesis by auto
          next
            case eq: True
            from s [rule_format, of sid] have "samplers' sid = None" by auto
            moreover have "\<forall>c \<in> set kept'. ch_sampler c \<noteq> Some sid"
              using sub unreferenced [OF par] by blast
            ultimately show ?thesis using eq d Some by auto
          qed
          with k d show ?thesis by auto
        qed
      qed
    qed
  qed
qed

lemma shared_removable:
  "in_removable (1 / 1000000) shared_doc shared_tracks channel_a"
  "\<not> in_removable (1 / 1000000) shared_doc shared_tracks channel_b"
  by (simp_all add: in_removable_def channel_key_def channel_a_def channel_b_def node_index_def
      shared_doc_def removable_def shared_tracks_def rest_track_def base_value_def vec_close_def)

lemma upt_1_2: "[Suc 0..<2] = [Suc 0]" by (simp add: upt_rec)

lemma rest_scan: "kept_channel_scan (1 / 1000000) [0 \<mapsto> rest_sampler] channel_b = Inr True"
  by (simp add: kept_channel_scan_def getSampler_def channel_b_def rest_sampler_def
      getElementSize_def loop_count_def upt_1_2 upt_4 js_at_def)

lemma shared_pass3:
  "pass3_animation (1 / 1000000) shared_doc shared_tracks shared_anim
     = Inr \<lparr>anim_channels = [channel_b], anim_samplers = [0 \<mapsto> rest_sampler]\<rparr>"
proof -
  have a: "\<not> (ch_targetNode channel_a = None \<or> ch_targetPath channel_a = None)"
    and b: "\<not> (ch_targetNode channel_b = None \<or> ch_targetPath channel_b = None)"
    by (simp_all add: channel_a_def channel_b_def)
  have sa: "ch_sampler channel_a = Some 0" and sb: "ch_sampler channel_b = Some 0"
    by (simp_all add: channel_a_def channel_b_def)
  let ?R = "in_removable (1 / 1000000) shared_doc shared_tracks"
  have "pass3_channels (1 / 1000000) ?R [] [0 \<mapsto> rest_sampler] [channel_a, channel_b]
      = pass3_channels (1 / 1000000) ?R [] [0 \<mapsto> rest_sampler] [channel_b]"
    using pass3_step_removed [where c = channel_a and inRemovable = ?R
        and tolerance = "1 / 1000000" and kept = "[]" and samplers = "[0 \<mapsto> rest_sampler]"
        and cs = "[channel_b]", OF a shared_removable(1)]
    by (simp add: sa sb sampler_parents_def del: pass3_channels.simps)
  also have "\<dots> = pass3_channels (1 / 1000000) ?R [channel_b] [0 \<mapsto> rest_sampler] []"
    using pass3_step_kept [where c = channel_b and inRemovable = ?R
        and tolerance = "1 / 1000000" and kept = "[]" and samplers = "[0 \<mapsto> rest_sampler]"
        and cs = "[]", OF b shared_removable(2)]
    by (simp add: rest_scan del: pass3_channels.simps)
  finally show ?thesis
    by (simp add: pass3_animation_def shared_anim_def del: pass3_channels.simps(2))
qed

text \<open>
  C8. In the deletion pass over one animation the channels that stay are the channels it
  does not dispose, as they were: each still has the sampler it had. A sampler that is gone
  afterwards was the sampler of a disposed channel and of no channel that stays.
\<close>

theorem shared_sampler_not_disposed:
  assumes "pass3_animation tolerance doc globalTrackMap a = Inr a'"
  shows "anim_channels a'
           = filter (\<lambda>c. \<not> disposed (in_removable tolerance doc globalTrackMap) c) (anim_channels a)
     \<and> (\<forall>c \<in> set (anim_channels a').
           getSampler (anim_samplers a') c = getSampler (anim_samplers a) c)
     \<and> (\<forall>sid. anim_samplers a' sid \<noteq> anim_samplers a sid \<longrightarrow>
           anim_samplers a' sid = None
         \<and> (\<forall>c \<in> set (anim_channels a'). ch_sampler c \<noteq> Some sid)
         \<and> (\<exists>c \<in> set (anim_channels a).
               disposed (in_removable tolerance doc globalTrackMap) c \<and> ch_sampler c = Some sid))"
proof -
  from assms obtain channels samplers where
    run: "pass3_channels tolerance (in_removable tolerance doc globalTrackMap) []
            (anim_samplers a) (anim_channels a) = Inr (channels, samplers)"
    and a': "a' = \<lparr>anim_channels = channels, anim_samplers = samplers\<rparr>"
    by (auto simp: pass3_animation_def split: sum.splits)
  from pass3_channels_keeps [OF run]
  have k: "channels = filter (\<lambda>c. \<not> disposed (in_removable tolerance doc globalTrackMap) c)
                        (anim_channels a)"
    and s: "\<And>sid. samplers sid = anim_samplers a sid
          \<or> (samplers sid = None \<and> (\<forall>c \<in> set channels. ch_sampler c \<noteq> Some sid)
               \<and> (\<exists>c \<in> set (anim_channels a).
                     disposed (in_removable tolerance doc globalTrackMap) c
                   \<and> ch_sampler c = Some sid))"
    by blast+
  have "getSampler samplers c = getSampler (anim_samplers a) c" if "c \<in> set channels" for c
  proof (cases "ch_sampler c")
    case None
    then show ?thesis by (simp add: getSampler_def)
  next
    case (Some sid)
    with s [of sid] that show ?thesis by (auto simp: getSampler_def)
  qed
  with k s a' show ?thesis by auto
qed

theorem shared_sampler_not_disposed_witness:
  "pass3_animation (1 / 1000000) shared_doc shared_tracks shared_anim
     = Inr \<lparr>anim_channels = [channel_b], anim_samplers = [0 \<mapsto> rest_sampler]\<rparr>
   \<and> disposed (in_removable (1 / 1000000) shared_doc shared_tracks) channel_a
   \<and> ch_sampler channel_a = ch_sampler channel_b
   \<and> getSampler [0 \<mapsto> rest_sampler] channel_b = getSampler (anim_samplers shared_anim) channel_b
   \<and> getSampler (anim_samplers shared_anim) channel_b = Some rest_sampler"
proof -
  have "disposed (in_removable (1 / 1000000) shared_doc shared_tracks) channel_a"
    using shared_removable(1) by (simp add: disposed_def channel_a_def)
  moreover have "ch_sampler channel_a = ch_sampler channel_b"
    by (simp add: channel_a_def channel_b_def)
  moreover have "getSampler (anim_samplers shared_anim) channel_b = Some rest_sampler"
    by (simp add: getSampler_def shared_anim_def channel_b_def)
  ultimately show ?thesis
    using shared_sampler_not_disposed [OF shared_pass3] shared_pass3 by simp
qed

subsection \<open>The static test of pass 1\<close>

lemma getElementSize_pos: "0 < getElementSize a"
  by (cases "acc_type a") (simp_all add: getElementSize_def)

lemma frame_scan_eq:
  assumes "\<forall>j \<in> set js. base + j < length out \<and> j < length first"
  shows "frame_scan tolerance out first base js
     = Inr (list_all (\<lambda>j. \<bar>out ! (base + j) - first ! j\<bar> \<le> tolerance) js)"
  using assms
proof (induction js)
  case Nil
  then show ?case by simp
next
  case (Cons j js)
  then have "js_at out (real (base + j)) = Inr (out ! (base + j))"
    "js_at first (real j) = Inr (first ! j)"
    unfolding js_at_nat by simp_all
  with Cons show ?case by auto
qed

lemma static_scan_eq:
  assumes "\<forall>i \<in> set ks. i * es + es \<le> length out" and "es \<le> length first"
  shows "static_scan tolerance out first es ks
     = Inr (list_all (\<lambda>i. list_all (\<lambda>j. \<bar>out ! (i * es + j) - first ! j\<bar> \<le> tolerance) [0 ..< es]) ks)"
  using assms
proof (induction ks)
  case Nil
  then show ?case by simp
next
  case (Cons i ks)
  then have "\<forall>j \<in> set [0 ..< es]. i * es + j < length out \<and> j < length first"
    by auto
  from frame_scan_eq [OF this, of tolerance] Cons show ?case by auto
qed

lemma static_output_chunks:
  assumes "0 < es" and "length out = n * es"
  shows "static_output tolerance (out, es)
     = list_all (\<lambda>i. list_all (\<lambda>j. \<bar>out ! (i * es + j) - out ! j\<bar> \<le> tolerance) [0 ..< es]) [1 ..< n]"
proof -
  have "(\<forall>p \<in> {es ..< n * es}. \<bar>out ! p - out ! (p mod es)\<bar> \<le> tolerance)
      = (\<forall>i \<in> {1 ..< n}. \<forall>j \<in> {0 ..< es}. \<bar>out ! (i * es + j) - out ! j\<bar> \<le> tolerance)"
  proof (intro iffI ballI)
    fix i j assume a: "\<forall>p \<in> {es ..< n * es}. \<bar>out ! p - out ! (p mod es)\<bar> \<le> tolerance"
      and i: "i \<in> {1 ..< n}" and j: "j \<in> {0 ..< es}"
    from i have "Suc i \<le> n" by simp
    then have "Suc i * es \<le> n * es" by (rule mult_le_mono1)
    with j have lt: "i * es + j < n * es" by simp
    from i have le: "es \<le> i * es" by (cases i) simp_all
    from le have "es \<le> i * es + j" by (rule trans_le_add1)
    with lt have "i * es + j \<in> {es ..< n * es}"
      by (simp only: atLeastLessThan_iff)
    with a have "\<bar>out ! (i * es + j) - out ! ((i * es + j) mod es)\<bar> \<le> tolerance" by blast
    with j show "\<bar>out ! (i * es + j) - out ! j\<bar> \<le> tolerance" by simp
  next
    fix p assume a: "\<forall>i \<in> {1 ..< n}. \<forall>j \<in> {0 ..< es}. \<bar>out ! (i * es + j) - out ! j\<bar> \<le> tolerance"
      and p: "p \<in> {es ..< n * es}"
    from p assms(1) have "p div es < n" by (simp add: less_mult_imp_div_less)
    moreover from p assms(1) have "1 \<le> p div es"
      by (metis atLeastLessThan_iff div_greater_zero_iff less_eq_Suc_le One_nat_def)
    ultimately have i: "p div es \<in> {1 ..< n}" by simp
    from assms(1) have j: "p mod es \<in> {0 ..< es}" by simp
    from a i j have "\<bar>out ! (p div es * es + p mod es) - out ! (p mod es)\<bar> \<le> tolerance"
      by blast
    then show "\<bar>out ! p - out ! (p mod es)\<bar> \<le> tolerance" by simp
  qed
  with assms(2) show ?thesis
    by (simp add: static_output_def list_all_iff)
qed

lemma loop_count_exact: "0 < es \<Longrightarrow> loop_count (n * es) es = n"
proof -
  assume a: "0 < es"
  have "n * es + es - 1 = (es - 1) + n * es" using a by simp
  then have "(n * es + es - 1) div es = (es - 1) div es + n"
    using a by (simp only: div_mult_self1)
  moreover have "(es - 1) div es = 0" using a by simp
  ultimately show ?thesis by (simp add: loop_count_def)
qed

lemma is_static_eq:
  assumes "0 < es" and "length out mod es = 0"
  shows "is_static tolerance out es = Inr (static_output tolerance (out, es))"
proof -
  from assms(2) have "length out = length out div es * es" by (simp add: mod_0_imp_dvd)
  then obtain n where n: "length out = n * es" ..
  from assms(1) have gt: "(1 < real (length out) / real es) = (1 < n)"
    by (simp add: n)
  show ?thesis
  proof (cases "1 < n")
    case True
    have r: "\<forall>i \<in> set [1 ..< n]. i * es + es \<le> length out"
    proof
      fix i assume "i \<in> set [1 ..< n]"
      then have "Suc i \<le> n" by simp
      then have "Suc i * es \<le> n * es" by (rule mult_le_mono1)
      then show "i * es + es \<le> length out" by (simp add: n add.commute)
    qed
    from True n have "es \<le> length (take es out)" by simp
    have same: "list_all (\<lambda>i. list_all (\<lambda>j. \<bar>out ! (i * es + j) - take es out ! j\<bar> \<le> tolerance)
                  [0 ..< es]) [1 ..< n]
        = list_all (\<lambda>i. list_all (\<lambda>j. \<bar>out ! (i * es + j) - out ! j\<bar> \<le> tolerance)
                  [0 ..< es]) [1 ..< n]"
      by (simp add: list_all_iff)
    from static_scan_eq [OF r \<open>es \<le> length (take es out)\<close>, of tolerance] True gt n assms(1) same
    show ?thesis
      by (simp add: is_static_def loop_count_exact static_output_chunks [OF assms(1) n])
  next
    case False
    with gt n assms(1) show ?thesis
      by (simp add: is_static_def static_output_chunks [OF assms(1) n])
  qed
qed

subsection \<open>Pass 1 and pass 2 in closed form\<close>

lemma analysed_wf:
  assumes "analysed_output doc samplers c = Some (key, out, es)" and "wf_channel samplers c"
  shows "0 < es \<and> length out mod es = 0"
  using assms
  by (auto simp: analysed_output_def wf_channel_def getElementSize_pos
      split: option.splits if_splits)

lemma pass1_channel_eq:
  assumes "wf_channel (anim_samplers (fst ac)) (snd ac)"
  shows "pass1_channel tolerance doc g ac
     = Inr (case analysed_output doc (anim_samplers (fst ac)) (snd ac) of
              None \<Rightarrow> g
            | Some (key, oe) \<Rightarrow> g(key := g key @ [track tolerance oe]))"
proof (cases "analysed_output doc (anim_samplers (fst ac)) (snd ac)")
  case None
  then show ?thesis by (simp add: pass1_channel_def)
next
  case (Some koe)
  obtain key out es where koe: "koe = (key, out, es)" by (cases koe) auto
  from analysed_wf [OF Some [unfolded koe] assms] have "0 < es" "length out mod es = 0"
    by simp_all
  from is_static_eq [OF this, of tolerance] Some koe show ?thesis
    by (simp add: pass1_channel_def track_def first_value_def)
qed

lemma pass1_fold:
  assumes "list_all (\<lambda>ac. wf_channel (anim_samplers (fst ac)) (snd ac)) acs"
  shows "foldM (pass1_channel tolerance doc) g acs
     = Inr (\<lambda>key. g key @ map (track tolerance \<circ> snd)
              (filter (\<lambda>ko. fst ko = key)
                 (List.map_filter (\<lambda>ac. analysed_output doc (anim_samplers (fst ac)) (snd ac)) acs)))"
  using assms
proof (induction acs arbitrary: g)
  case Nil
  then show ?case by (simp add: map_filter_simps)
next
  case (Cons ac acs)
  then have wf: "wf_channel (anim_samplers (fst ac)) (snd ac)"
    and rest: "list_all (\<lambda>ac. wf_channel (anim_samplers (fst ac)) (snd ac)) acs" by simp_all
  show ?case
  proof (cases "analysed_output doc (anim_samplers (fst ac)) (snd ac)")
    case None
    with pass1_channel_eq [OF wf, of tolerance doc g] Cons.IH [OF rest, of g] show ?thesis
      by (simp add: map_filter_simps)
  next
    case (Some koe)
    obtain key oe where koe: "koe = (key, oe)" by (cases koe) auto
    let ?g = "g(key := g key @ [track tolerance oe])"
    let ?an = "List.map_filter (\<lambda>ac. analysed_output doc (anim_samplers (fst ac)) (snd ac))"
    have "foldM (pass1_channel tolerance doc) g (ac # acs)
        = foldM (pass1_channel tolerance doc) ?g acs"
      using Some koe pass1_channel_eq [OF wf, of tolerance doc g] by simp
    also have "\<dots> = Inr (\<lambda>k. ?g k @ map (track tolerance \<circ> snd)
              (filter (\<lambda>ko. fst ko = k) (?an acs)))"
      by (rule Cons.IH [OF rest])
    also have "(\<lambda>k. ?g k @ map (track tolerance \<circ> snd) (filter (\<lambda>ko. fst ko = k) (?an acs)))
        = (\<lambda>k. g k @ map (track tolerance \<circ> snd) (filter (\<lambda>ko. fst ko = k) (?an (ac # acs))))"
      using Some koe by (auto simp: map_filter_simps fun_eq_iff)
    finally show ?thesis .
  qed
qed

lemma wf_all_channels:
  "wf_outputs doc \<Longrightarrow>
   list_all (\<lambda>ac. wf_channel (anim_samplers (fst ac)) (snd ac)) (all_channels doc)"
  by (auto simp: wf_outputs_def all_channels_def list_all_iff)

lemma pass1_eq:
  assumes "wf_outputs doc"
  shows "pass1 tolerance doc = Inr (\<lambda>key. map (track tolerance) (outputs_of doc key))"
  using pass1_fold [OF wf_all_channels [OF assms], of tolerance doc "\<lambda>key. []"]
  by (simp add: pass1_def outputs_of_def outputs_def)

lemma removable_eq:
  "removable tolerance doc (\<lambda>key. map (track tolerance) (outputs_of doc key)) key
     = consensus tolerance doc key"
proof (cases "outputs_of doc key")
  case Nil
  then show ?thesis by (simp add: removable_def consensus_def)
next
  case (Cons first rest)
  then show ?thesis
    by (auto simp: removable_def consensus_def list_ex_iff list_all_iff track_def
        split: option.splits if_splits)
qed

lemma in_removable_eq:
  "in_removable tolerance doc (\<lambda>key. map (track tolerance) (outputs_of doc key)) c
     = removed_by_consensus tolerance doc c"
  by (cases "channel_key doc c") (simp_all add: in_removable_def removed_by_consensus_def removable_eq)

lemma disposed_eq:
  "disposed (in_removable tolerance doc (\<lambda>key. map (track tolerance) (outputs_of doc key))) c
     = removed_by_consensus tolerance doc c"
  by (auto simp: disposed_def in_removable_eq removed_by_consensus_def channel_key_def
      split: option.splits)

subsection \<open>Pass 3 returns on well-formed outputs\<close>

lemma diag_frame_total:
  "\<forall>j \<in> set js. base + j < length out \<and> j < length out \<Longrightarrow>
   \<exists>b. diag_frame tolerance out base st js = Inr b"
proof (induction js arbitrary: st)
  case Nil
  then show ?case by simp
next
  case (Cons j js)
  then have "js_at out (real (base + j)) = Inr (out ! (base + j))"
    "js_at out (real j) = Inr (out ! j)"
    unfolding js_at_nat by simp_all
  with Cons show ?case by auto
qed

lemma diag_scan_total:
  assumes "\<forall>i \<in> set ks. i * es + es \<le> length out"
  shows "\<exists>b. diag_scan tolerance out es ks = Inr b"
  using assms
proof (induction ks)
  case Nil
  then show ?case by auto
next
  case (Cons i ks)
  then have "\<forall>j \<in> set [0 ..< es]. i * es + j < length out \<and> j < length out" by auto
  from diag_frame_total [OF this, of tolerance True] Cons show ?case by auto
qed

lemma kept_channel_scan_total:
  assumes "wf_channel samplers c"
  shows "\<exists>b. kept_channel_scan tolerance samplers c = Inr b"
proof (cases "getSampler samplers c")
  case None
  then show ?thesis by (auto simp: kept_channel_scan_def)
next
  case (Some s)
  show ?thesis
  proof (cases "smp_output s")
    case None
    with Some show ?thesis by (auto simp: kept_channel_scan_def)
  next
    case out: (Some outp)
    show ?thesis
    proof (cases "acc_array outp")
      case None
      with Some out show ?thesis by (auto simp: kept_channel_scan_def)
    next
      case arr: (Some outputArray)
      let ?es = "getElementSize outp"
      let ?out = "elems outputArray"
      from assms Some out arr have "length ?out mod ?es = 0" by (simp add: wf_channel_def)
      then have "length ?out = length ?out div ?es * ?es" by (simp add: mod_0_imp_dvd)
      then obtain n where n: "length ?out = n * ?es" ..
      have "\<forall>i \<in> set [1 ..< n]. i * ?es + ?es \<le> length ?out"
      proof
        fix i assume "i \<in> set [1 ..< n]"
        then have "Suc i \<le> n" by simp
        then have "Suc i * ?es \<le> n * ?es" by (rule mult_le_mono1)
        then show "i * ?es + ?es \<le> length ?out" by (simp add: n add.commute)
      qed
      from diag_scan_total [OF this, of tolerance] Some out arr n getElementSize_pos [of outp]
      show ?thesis
        by (auto simp: kept_channel_scan_def loop_count_exact)
    qed
  qed
qed

lemma wf_detach:
  "wf_channel samplers c \<Longrightarrow> wf_channel (samplers(sid := None)) (detach sid c)"
  by (auto simp: wf_channel_def detach_def getSampler_def split: option.splits)

lemma pass3_channels_total:
  "list_all (wf_channel samplers) cs \<Longrightarrow>
   \<exists>res. pass3_channels tolerance inRemovable kept samplers cs = Inr res"
proof (induction tolerance inRemovable kept samplers cs rule: pass3_channels.induct)
  case (1 tolerance inRemovable kept samplers)
  then show ?case by simp
next
  case (2 tolerance inRemovable kept samplers c cs)
  from "2.prems" have wc: "wf_channel samplers c" and wcs: "list_all (wf_channel samplers) cs"
    by simp_all
  show ?case
  proof (cases "ch_targetNode c = None \<or> ch_targetPath c = None")
    case True
    from "2.IH"(1) [OF True wcs] True show ?thesis by auto
  next
    case target: False
    show ?thesis
    proof (cases "inRemovable c")
      case False
      from kept_channel_scan_total [OF wc, of tolerance] obtain b where
        b: "kept_channel_scan tolerance samplers c = Inr b" by blast
      from "2.IH"(5) [OF target False b wcs]
        pass3_step_kept [where c = c and inRemovable = inRemovable and tolerance = tolerance
          and kept = kept and samplers = samplers and cs = cs, OF target False] b
      show ?thesis by (auto simp del: pass3_channels.simps fun_upd_apply)
    next
      case rem: True
      note step = pass3_step_removed [where c = c and inRemovable = inRemovable
          and tolerance = tolerance and kept = kept and samplers = samplers and cs = cs,
          OF target rem]
      show ?thesis
      proof (cases "ch_sampler c")
        case None
        from "2.IH"(2) [OF target rem None wcs] step None show ?thesis
          by (auto simp del: pass3_channels.simps fun_upd_apply)
      next
        case (Some sid)
        show ?thesis
        proof (cases "samplers sid \<noteq> None \<and> sampler_parents sid (kept @ cs) \<le> 1")
          case False
          from "2.IH"(4) [OF target rem Some False wcs] step Some False show ?thesis
            by (auto simp del: pass3_channels.simps fun_upd_apply)
        next
          case True
          from wcs have "list_all (wf_channel (samplers(sid := None))) (map (detach sid) cs)"
            by (simp add: list_all_iff wf_detach)
          from "2.IH"(3) [OF target rem Some True this] step Some True show ?thesis
            by (auto simp del: pass3_channels.simps fun_upd_apply)
        qed
      qed
    qed
  qed
qed

lemma mapM_map_eq:
  assumes "mapM f xs = Inr ys" and "\<And>x y. x \<in> set xs \<Longrightarrow> f x = Inr y \<Longrightarrow> g y = h x"
  shows "map g ys = map h xs"
  using assms
proof (induction xs arbitrary: ys)
  case Nil
  then show ?case by simp
next
  case (Cons x xs)
  from Cons.prems(1) obtain y ys' where y: "f x = Inr y" "mapM f xs = Inr ys'" "ys = y # ys'"
    by (auto split: sum.splits)
  have "map g ys' = map h xs"
  proof (rule Cons.IH [OF y(2)])
    fix x' y' assume "x' \<in> set xs" "f x' = Inr y'"
    then show "g y' = h x'" using Cons.prems(2) [of x' y'] by simp
  qed
  moreover from Cons.prems(2) [of x y] y(1) have "g y = h x" by simp
  ultimately show ?case using y(3) by simp
qed

subsection \<open>What removeStaticTracksWithBake removes\<close>

text \<open>
  What the transform removes, on a document whose outputs hold whole keyframes: it returns,
  and in every animation it removes exactly the channels whose key has an analysed output,
  every output of the key static, the value of each within the tolerance of the value of the
  first, and the rest pose within the tolerance of that first value.
\<close>

lemma removeStaticTracksWithBake_result:
  assumes "wf_outputs doc"
  shows "\<exists>doc'. removeStaticTracksWithBake tolerance doc = Inr doc'
     \<and> map anim_channels (doc_animations doc')
         = map (\<lambda>a. filter (\<lambda>c. \<not> removed_by_consensus tolerance doc c) (anim_channels a))
             (doc_animations doc)"
proof (cases "doc_animations doc = []")
  case True
  then show ?thesis by (simp add: removeStaticTracksWithBake_def)
next
  case False
  let ?g = "\<lambda>key. map (track tolerance) (outputs_of doc key)"
  have "\<exists>a'. pass3_animation tolerance doc ?g a = Inr a'" if "a \<in> set (doc_animations doc)" for a
  proof -
    from assms that have "list_all (wf_channel (anim_samplers a)) (anim_channels a)"
      by (simp add: wf_outputs_def list_all_iff)
    from pass3_channels_total [OF this, of tolerance "in_removable tolerance doc ?g" "[]"]
    show ?thesis by (auto simp: pass3_animation_def)
  qed
  from mapM_total [of "doc_animations doc" "pass3_animation tolerance doc ?g", OF this]
  obtain animations where
    an: "mapM (pass3_animation tolerance doc ?g) (doc_animations doc) = Inr animations" by blast
  have "map anim_channels animations
      = map (\<lambda>a. filter (\<lambda>c. \<not> removed_by_consensus tolerance doc c) (anim_channels a))
          (doc_animations doc)"
  proof (rule mapM_map_eq [OF an])
    fix a a' assume "pass3_animation tolerance doc ?g a = Inr a'"
    then obtain channels samplers where
      run: "pass3_channels tolerance (in_removable tolerance doc ?g) []
            (anim_samplers a) (anim_channels a) = Inr (channels, samplers)"
      and a': "a' = \<lparr>anim_channels = channels, anim_samplers = samplers\<rparr>"
      by (auto simp: pass3_animation_def split: sum.splits)
    from pass3_channels_keeps [OF run] a'
    show "anim_channels a' = filter (\<lambda>c. \<not> removed_by_consensus tolerance doc c) (anim_channels a)"
      by (simp add: disposed_eq)
  qed
  with False an pass1_eq [OF assms, of tolerance] show ?thesis
    by (simp add: removeStaticTracksWithBake_def)
qed

subsection \<open>Evaluating the animation examples\<close>

lemma upt_4_8: "[4..<8] = [4, 5, 6, 7]" by (simp add: upt_rec)

lemma upt_3_6: "[3..<6] = [3, 4, 5]" by (simp add: upt_rec)

lemma shared_outputs:
  "outputs shared_doc
     = [((0, Rotation), [0, 0, 0, 1, 0, 0, 0, 1], 4), ((1, Rotation), [0, 0, 0, 1, 0, 0, 0, 1], 4)]"
  by (simp add: outputs_def all_channels_def shared_doc_def shared_anim_def channel_a_def
      channel_b_def map_filter_simps analysed_output_def getSampler_def channel_key_def
      node_index_def rest_sampler_def getElementSize_def)

lemma shared_wf: "wf_outputs shared_doc"
  by (simp add: wf_outputs_def shared_doc_def shared_anim_def channel_a_def channel_b_def
      wf_channel_def getSampler_def rest_sampler_def getElementSize_def)

lemma shared_consensus:
  "removed_by_consensus (1 / 1000000) shared_doc channel_a"
  "\<not> removed_by_consensus (1 / 1000000) shared_doc channel_b"
  by (simp_all add: removed_by_consensus_def channel_key_def channel_a_def channel_b_def
      node_index_def consensus_def outputs_of_def shared_outputs static_output_def upt_4_8
      first_value_def vec_close_def base_value_def)
    (simp_all add: shared_doc_def)

lemma drift_outputs:
  "outputs drift_doc
     = [((0, Translation), [0, 0, 0, 0, 0, 0], 3),
        ((0, Translation), [1 / 1000000, 0, 0, 1 / 1000000, 0, 0], 3),
        ((0, Translation), [- (1 / 1000000), 0, 0, - (1 / 1000000), 0, 0], 3)]"
  by (simp add: outputs_def all_channels_def drift_doc_def hold_anim_def map_filter_simps
      analysed_output_def getSampler_def channel_key_def node_index_def getElementSize_def)

lemma drift_wf: "wf_outputs drift_doc"
  by (simp add: wf_outputs_def drift_doc_def hold_anim_def wf_channel_def getSampler_def
      getElementSize_def)

lemma drift_key:
  "c \<in> set (anim_channels (hold_anim x)) \<Longrightarrow> channel_key drift_doc c = Some (0, Translation)"
  by (simp add: hold_anim_def channel_key_def node_index_def drift_doc_def)

lemma drift_consensus: "consensus (1 / 1000000) drift_doc (0, Translation)"
  by (simp add: consensus_def outputs_of_def drift_outputs static_output_def upt_3_6
      first_value_def vec_close_def base_value_def)
    (simp add: drift_doc_def)

lemma drift_no_consensus_spec: "\<not> consensus_spec (1 / 1000000) drift_doc (0, Translation)"
  by (simp add: consensus_spec_def outputs_of_def drift_outputs static_output_def upt_3_6
      first_value_def vec_close_def)


lemma upt_1_4: "[1..<4] = [1, 2, 3]" by (simp add: upt_rec)

lemma morph_outputs: "outputs morph_doc = [((0, Weights), [0, 0, 0, 0], 1)]"
  by (simp add: outputs_def all_channels_def morph_doc_def morph_channel_def map_filter_simps
      analysed_output_def getSampler_def channel_key_def node_index_def getElementSize_def)

lemma morph_wf: "wf_outputs morph_doc"
  by (simp add: wf_outputs_def morph_doc_def morph_channel_def wf_channel_def getSampler_def
      getElementSize_def)

lemma morph_no_consensus: "\<not> removed_by_consensus (1 / 1000000) morph_doc morph_channel"
  by (simp add: removed_by_consensus_def channel_key_def morph_channel_def node_index_def
      consensus_def outputs_of_def morph_outputs first_value_def vec_close_def base_value_def)
    (simp add: morph_doc_def first_value_def vec_close_def)

subsection \<open>Claims about removeStaticTracksWithBake\<close>

text \<open>
  The example with the shared sampler: the channel of the first node, whose rest rotation
  the sampler holds, is removed, and the channel of the second node stays.
\<close>

lemma shared_doc_run:
  "\<exists>doc'. removeStaticTracksWithBake (1 / 1000000) shared_doc = Inr doc'
         \<and> map anim_channels (doc_animations doc') = [[channel_b]]"
proof -
  have "map (\<lambda>a. filter (\<lambda>c. \<not> removed_by_consensus (1 / 1000000) shared_doc c) (anim_channels a))
             (doc_animations shared_doc) = [[channel_b]]"
    using shared_consensus by (simp add: shared_doc_def shared_anim_def)
  with removeStaticTracksWithBake_result [OF shared_wf, of "1 / 1000000"]
  show ?thesis by simp
qed

text \<open>
  A channel that holds the two morph weights of a mesh at their rest value stays: the
  output accessor is \<^verbatim>\<open>SCALAR\<close>, so the transform takes the first value alone as the
  static value and finds it one long where the rest weights are two long.
\<close>

lemma morph_weights_kept:
  "\<exists>doc'. removeStaticTracksWithBake (1 / 1000000) morph_doc = Inr doc'
         \<and> map anim_channels (doc_animations doc') = [[morph_channel]]"
proof -
  have "map (\<lambda>a. filter (\<lambda>c. \<not> removed_by_consensus (1 / 1000000) morph_doc c) (anim_channels a))
             (doc_animations morph_doc) = [[morph_channel]]"
    using morph_no_consensus by (simp add: morph_doc_def)
  with removeStaticTracksWithBake_result [OF morph_wf, of "1 / 1000000"]
  show ?thesis by simp
qed

text \<open>
  C1 fails on the code. The claim, like the comment of the function, asks that the static
  values agree with each other. Pass 2 compares each with the value of the first track
  only: the three animations of the example hold the translation of one node at 0, at a
  millionth and at minus a millionth, the last two are two millionths apart, and with the
  tolerance of a millionth all three channels are removed.
\<close>

theorem removeStaticTracksWithBake_drift:
  "(\<exists>doc'. removeStaticTracksWithBake (1 / 1000000) drift_doc = Inr doc'
        \<and> map anim_channels (doc_animations doc') = [[], [], []])
   \<and> map (\<lambda>a. map (channel_key drift_doc) (anim_channels a)) (doc_animations drift_doc)
       = [[Some (0, Translation)], [Some (0, Translation)], [Some (0, Translation)]]
   \<and> map (static_output (1 / 1000000)) (outputs_of drift_doc (0, Translation)) = [True, True, True]
   \<and> map first_value (outputs_of drift_doc (0, Translation))
       = [[0, 0, 0], [1 / 1000000, 0, 0], [- (1 / 1000000), 0, 0]]
   \<and> \<not> vec_close (1 / 1000000) [1 / 1000000, 0, 0] [- (1 / 1000000), 0, 0]
   \<and> \<not> consensus_spec (1 / 1000000) drift_doc (0, Translation)"
proof -
  have r: "removed_by_consensus (1 / 1000000) drift_doc c" if "c \<in> set (anim_channels (hold_anim x))" for c x
    using drift_key [OF that] drift_consensus by (simp add: removed_by_consensus_def)
  have "map (\<lambda>a. filter (\<lambda>c. \<not> removed_by_consensus (1 / 1000000) drift_doc c) (anim_channels a))
             (doc_animations drift_doc) = [[], [], []]"
    using r by (simp add: drift_doc_def filter_empty_conv)
  with removeStaticTracksWithBake_result [OF drift_wf, of "1 / 1000000"]
  have "\<exists>doc'. removeStaticTracksWithBake (1 / 1000000) drift_doc = Inr doc'
        \<and> map anim_channels (doc_animations doc') = [[], [], []]" by simp
  moreover have "map (\<lambda>a. map (channel_key drift_doc) (anim_channels a)) (doc_animations drift_doc)
       = [[Some (0, Translation)], [Some (0, Translation)], [Some (0, Translation)]]"
    by (simp add: drift_doc_def hold_anim_def channel_key_def node_index_def)
  moreover have "map (static_output (1 / 1000000)) (outputs_of drift_doc (0, Translation))
      = [True, True, True]"
    by (simp add: outputs_of_def drift_outputs static_output_def upt_3_6)
  moreover have "map first_value (outputs_of drift_doc (0, Translation))
       = [[0, 0, 0], [1 / 1000000, 0, 0], [- (1 / 1000000), 0, 0]]"
    by (simp add: outputs_of_def drift_outputs first_value_def)
  moreover have "\<not> vec_close (1 / 1000000) [1 / 1000000, 0, 0] [- (1 / 1000000), 0, 0]"
    by (simp add: vec_close_def)
  ultimately show ?thesis using drift_no_consensus_spec by blast
qed

subsection \<open>normalizeWeights on normalized integer weights\<close>

lemma quantized_sum: "weight_sum [128, 127, 0, 0] 4 0 = Inr 255"
  by (simp add: weight_sum_def upt_4 js_at_def)

lemma quantized_divide: "divide_vertex Uint8 [128, 127, 0, 0] 4 0 255 = Inr [0, 0, 0, 0]"
  by (simp add: divide_vertex_def upt_4 js_at_def to_uint_def js_trunc_def list_update_numeral)

lemma quantized_prim_run:
  "normalizeWeights_prim quantized_accessors quantized_prim
     = Inr [0 \<mapsto> \<lparr>acc_type = VEC4, acc_array = Some \<lparr>kind = Uint8, elems = [0, 0, 0, 0]\<rparr>\<rparr>]"
  by (simp add: normalizeWeights_prim_def quantized_prim_def quantized_accessors_def
      getAttribute_def setArray_def getElementSize_def loop_count_def normalize_vertex_def
      quantized_sum quantized_divide)

text \<open>
  C6 fails on the code. \<^verbatim>\<open>WEIGHTS_0\<close> may be stored as normalized unsigned bytes; the
  array the transform reads then holds the raw bytes. For the vertex \<open>[128, 127, 0, 0]\<close>
  (weights 128/255 and 127/255) the sum of the raw values is 255, each quotient is below 1,
  and the store into the \<^verbatim>\<open>Uint8Array\<close> truncates it to 0: the vertex, whose weights summed
  to a positive value, is left with no weight at all.
\<close>

theorem normalizeWeights_quantized:
  "normalizeWeights quantized_doc
     = Inr (quantized_doc\<lparr>doc_accessors :=
         [0 \<mapsto> \<lparr>acc_type = VEC4, acc_array = Some \<lparr>kind = Uint8, elems = [0, 0, 0, 0]\<rparr>\<rparr>]\<rparr>)"
  by (simp add: normalizeWeights_def normalizeWeights_mesh_def quantized_doc_def quantized_prim_run)

subsection \<open>normalizeWeights on float weights\<close>

lemma weight_sum_fold:
  "\<forall>j \<in> set js. base + j < length arr \<Longrightarrow>
   foldM (\<lambda>acc j. case js_at arr (real (base + j)) of Inl e \<Rightarrow> Inl e | Inr w \<Rightarrow> Inr (acc + w))
     acc js = Inr (acc + sum_list (map (\<lambda>j. arr ! (base + j)) js))"
proof (induction js arbitrary: acc)
  case Nil
  then show ?case by simp
next
  case (Cons j js)
  then have "js_at arr (real (base + j)) = Inr (arr ! (base + j))"
    unfolding js_at_nat by simp
  with Cons show ?case by (simp add: add.assoc)
qed

lemma weight_sum_eq:
  assumes "i * es + es \<le> length arr"
  shows "weight_sum arr es i = Inr (vertex_sum arr es i)"
proof -
  from assms have "\<forall>j \<in> set [0 ..< es]. i * es + j < length arr" by auto
  from weight_sum_fold [OF this, of 0] show ?thesis
    by (simp add: weight_sum_def vertex_sum_def)
qed

lemma divide_fold:
  assumes "base + k \<le> length arr"
  shows "\<exists>a. foldM (\<lambda>a j. case js_at a (real (base + j)) of
                      Inl e \<Rightarrow> Inl e
                    | Inr w \<Rightarrow> Inr (a[base + j := coerce Float32 (w / s)])) arr [0 ..< k] = Inr a
      \<and> length a = length arr
      \<and> (\<forall>p < length arr. a ! p = (if base \<le> p \<and> p < base + k then arr ! p / s else arr ! p))"
  using assms
proof (induction k)
  case 0
  then show ?case by simp
next
  case (Suc k)
  let ?f = "\<lambda>a j. case js_at a (real (base + j)) of
                      Inl e \<Rightarrow> Inl e
                    | Inr w \<Rightarrow> Inr (a[base + j := coerce Float32 (w / s)])"
  from Suc obtain a where a: "foldM ?f arr [0 ..< k] = Inr a" "length a = length arr"
    "\<forall>p < length arr. a ! p = (if base \<le> p \<and> p < base + k then arr ! p / s else arr ! p)"
    by auto
  from Suc.prems a(2) have in_range: "base + k < length a" by simp
  then have rd: "js_at a (real (base + k)) = Inr (a ! (base + k))"
    unfolding js_at_nat by simp
  from a(3) in_range a(2) have old: "a ! (base + k) = arr ! (base + k)" by simp
  let ?a' = "a[base + k := arr ! (base + k) / s]"
  have run: "foldM ?f arr [0 ..< Suc k] = Inr ?a'"
    using a(1) rd old by (simp add: foldM_append)
  have "\<forall>p < length arr. ?a' ! p
      = (if base \<le> p \<and> p < base + Suc k then arr ! p / s else arr ! p)"
  proof (intro allI impI)
    fix p assume p: "p < length arr"
    show "?a' ! p = (if base \<le> p \<and> p < base + Suc k then arr ! p / s else arr ! p)"
    proof (cases "p = base + k")
      case True
      with in_range show ?thesis by simp
    next
      case False
      with a(3) p show ?thesis by (auto simp: nth_list_update)
    qed
  qed
  with run a(2) show ?case by auto
qed

lemma normalize_vertex_eq:
  assumes "i * es + es \<le> length arr"
  shows "\<exists>a. normalize_vertex Float32 es arr i = Inr a
      \<and> length a = length arr
      \<and> (\<forall>p < length arr. a ! p
            = (if i * es \<le> p \<and> p < i * es + es \<and> off_unit (vertex_sum arr es i)
               then arr ! p / vertex_sum arr es i else arr ! p))"
proof (cases "off_unit (vertex_sum arr es i)")
  case True
  from divide_fold [OF assms, of "vertex_sum arr es i"] True weight_sum_eq [OF assms]
  show ?thesis
    by (simp add: normalize_vertex_def divide_vertex_def off_unit_def)
next
  case False
  with weight_sum_eq [OF assms] show ?thesis
    by (auto simp: normalize_vertex_def off_unit_def)
qed

lemma chunk_index:
  assumes "0 < (es::nat)"
  shows "(m * es \<le> p \<and> p < m * es + es) = (p div es = m)"
proof
  assume a: "m * es \<le> p \<and> p < m * es + es"
  then have "p div es < Suc m" using assms by (simp add: less_mult_imp_div_less add.commute)
  moreover from a assms have "m \<le> p div es"
    by (metis div_le_mono div_mult_self_is_m)
  ultimately show "p div es = m" by simp
next
  assume "p div es = m"
  then have "m * es = p div es * es" by simp
  then show "m * es \<le> p \<and> p < m * es + es"
    using assms by (metis add.commute div_times_less_eq_dividend dividend_less_div_times)
qed

lemma vertex_sum_cong:
  assumes "\<And>j. j < es \<Longrightarrow> a ! (i * es + j) = b ! (i * es + j)"
  shows "vertex_sum a es i = vertex_sum b es i"
proof -
  have "map (\<lambda>j. a ! (i * es + j)) [0 ..< es] = map (\<lambda>j. b ! (i * es + j)) [0 ..< es]"
    by (rule map_cong) (simp_all add: assms)
  then show ?thesis unfolding vertex_sum_def by (rule arg_cong)
qed

lemma normalize_loop:
  assumes "0 < es" and "length arr = n * es" and "m \<le> n"
  shows "\<exists>a. foldM (normalize_vertex Float32 es) arr [0 ..< m] = Inr a
      \<and> length a = length arr
      \<and> (\<forall>p < length arr. a ! p
            = (if p div es < m \<and> off_unit (vertex_sum arr es (p div es))
               then arr ! p / vertex_sum arr es (p div es) else arr ! p))"
  using assms(3)
proof (induction m)
  case 0
  then show ?case by simp
next
  case (Suc m)
  then obtain a where a: "foldM (normalize_vertex Float32 es) arr [0 ..< m] = Inr a"
    "length a = length arr"
    "\<forall>p < length arr. a ! p
            = (if p div es < m \<and> off_unit (vertex_sum arr es (p div es))
               then arr ! p / vertex_sum arr es (p div es) else arr ! p)"
    by auto
  from Suc.prems have "Suc m * es \<le> n * es" by (intro mult_le_mono1)
  with assms(2) a(2) have fits: "m * es + es \<le> length a" by (simp add: add.commute)
  have same_sum: "vertex_sum a es m = vertex_sum arr es m"
  proof (rule vertex_sum_cong)
    fix j assume j: "j < es"
    with fits a(2) have p: "m * es + j < length arr" by simp
    from j assms(1) have "(m * es + j) div es = m" by simp
    with a(3) p show "a ! (m * es + j) = arr ! (m * es + j)" by simp
  qed
  from normalize_vertex_eq [OF fits] same_sum obtain a' where
    a': "normalize_vertex Float32 es a m = Inr a'" "length a' = length a"
    "\<forall>p < length a. a' ! p
            = (if m * es \<le> p \<and> p < m * es + es \<and> off_unit (vertex_sum arr es m)
               then a ! p / vertex_sum arr es m else a ! p)"
    by auto
  have "\<forall>p < length arr. a' ! p
            = (if p div es < Suc m \<and> off_unit (vertex_sum arr es (p div es))
               then arr ! p / vertex_sum arr es (p div es) else arr ! p)"
  proof (intro allI impI)
    fix p assume p: "p < length arr"
    show "a' ! p = (if p div es < Suc m \<and> off_unit (vertex_sum arr es (p div es))
               then arr ! p / vertex_sum arr es (p div es) else arr ! p)"
    proof (cases "p div es = m")
      case True
      with chunk_index [OF assms(1), of m p] a'(3) a(2) a(3) p show ?thesis by auto
    next
      case False
      with chunk_index [OF assms(1), of m p] a'(3) a(2) a(3) p show ?thesis
        by (auto simp: less_Suc_eq)
    qed
  qed
  with a(1) a'(1) a'(2) a(2) show ?case
    by (auto simp: foldM_append)
qed

lemma sum_list_divide:
  "sum_list (map (\<lambda>j. f j / (c::real)) js) = sum_list (map f js) / c"
  by (induction js) (simp_all add: add_divide_distrib)
lemma normalized_sums:
  assumes es: "0 < es" and len: "length arr = n * es" and "length ws = length arr"
    and ws: "\<forall>p < length arr. ws ! p
            = (if p div es < n \<and> off_unit (vertex_sum arr es (p div es))
               then arr ! p / vertex_sum arr es (p div es) else arr ! p)"
    and i: "i < n"
  shows "vertex_sum ws es i
     = (if off_unit (vertex_sum arr es i) then 1 else vertex_sum arr es i)"
proof -
  have p: "i * es + j < length arr \<and> (i * es + j) div es = i" if "j < es" for j
  proof -
    from i have "Suc i * es \<le> n * es" by (intro mult_le_mono1) simp
    with that len es show ?thesis by simp
  qed
  show ?thesis
  proof (cases "off_unit (vertex_sum arr es i)")
    case True
    then have pos: "vertex_sum arr es i \<noteq> 0" by (auto simp: off_unit_def)
    have "vertex_sum ws es i
        = sum_list (map (\<lambda>j. arr ! (i * es + j) / vertex_sum arr es i) [0 ..< es])"
      unfolding vertex_sum_def [of ws]
      by (rule arg_cong [of _ _ sum_list], rule map_cong) (use p ws i True in auto)
    also have "\<dots> = vertex_sum arr es i / vertex_sum arr es i"
      by (simp add: sum_list_divide vertex_sum_def)
    finally show ?thesis using True pos by simp
  next
    case False
    have "vertex_sum ws es i = vertex_sum arr es i"
      by (rule vertex_sum_cong) (use p ws False in auto)
    with False show ?thesis by simp
  qed
qed

text \<open>
  On a \<^verbatim>\<open>Float32Array\<close> of whole vertices the loop does what C6 says, in exact
  arithmetic: a vertex with a positive sum ends with a sum within \<open>1e-6\<close> of 1, a vertex the
  test lets pass (all weights zero, say) keeps its components, and a second run changes
  nothing.
\<close>

lemma normalizeWeights_float:
  assumes w: "getAttribute accs prim ''WEIGHTS_0'' = Some (wr, w)" and arr: "acc_array w = Some arr"
    and k: "kind arr = Float32" and len: "length (elems arr) mod getElementSize w = 0"
  shows "\<exists>ws accs'.
       normalizeWeights_prim accs prim = Inr accs'
     \<and> accs' = accs(wr \<mapsto> w\<lparr>acc_array := Some (arr\<lparr>elems := ws\<rparr>)\<rparr>)
     \<and> length ws = length (elems arr)
     \<and> (\<forall>i < length (elems arr) div getElementSize w.
           (0 < vertex_sum (elems arr) (getElementSize w) i
              \<longrightarrow> \<bar>vertex_sum ws (getElementSize w) i - 1\<bar> \<le> 1 / 10 ^ 6)
         \<and> (\<not> off_unit (vertex_sum (elems arr) (getElementSize w) i)
              \<longrightarrow> (\<forall>j < getElementSize w.
                    ws ! (i * getElementSize w + j) = elems arr ! (i * getElementSize w + j))))
     \<and> normalizeWeights_prim accs' prim = Inr accs'"
proof -
  let ?es = "getElementSize w"
  let ?n = "length (elems arr) div ?es"
  have es: "0 < ?es" by (rule getElementSize_pos)
  from len have n: "length (elems arr) = ?n * ?es" by (simp add: mod_0_imp_dvd)
  from normalize_loop [OF es n order_refl] obtain ws where
    run: "foldM (normalize_vertex Float32 ?es) (elems arr) [0 ..< ?n] = Inr ws"
    and lws: "length ws = length (elems arr)"
    and ws: "\<forall>p < length (elems arr). ws ! p
            = (if p div ?es < ?n \<and> off_unit (vertex_sum (elems arr) ?es (p div ?es))
               then elems arr ! p / vertex_sum (elems arr) ?es (p div ?es) else elems arr ! p)"
    by blast
  have lc: "loop_count (length (elems arr)) ?es = ?n"
    using loop_count_exact [OF es, of ?n] n by simp
  from w have wr: "map_of (prim_attributes prim) ''WEIGHTS_0'' = Some wr" "accs wr = Some w"
    by (simp_all add: getAttribute_Some)
  let ?w' = "w\<lparr>acc_array := Some (arr\<lparr>elems := ws\<rparr>)\<rparr>"
  let ?accs' = "accs(wr \<mapsto> ?w')"
  have first: "normalizeWeights_prim accs prim = Inr ?accs'"
    using w arr k run lc wr(2) by (simp add: normalizeWeights_prim_def setArray_def)
  have w': "getAttribute ?accs' prim ''WEIGHTS_0'' = Some (wr, ?w')"
    using wr(1) by (simp add: getAttribute_Some)
  note sums = normalized_sums [OF es n lws ws]
  have props: "(0 < vertex_sum (elems arr) ?es i \<longrightarrow> \<bar>vertex_sum ws ?es i - 1\<bar> \<le> 1 / 10 ^ 6)
         \<and> (\<not> off_unit (vertex_sum (elems arr) ?es i)
              \<longrightarrow> (\<forall>j < ?es. ws ! (i * ?es + j) = elems arr ! (i * ?es + j)))"
    if i: "i < ?n" for i
  proof (intro conjI impI allI)
    assume "0 < vertex_sum (elems arr) ?es i"
    with sums [OF i] show "\<bar>vertex_sum ws ?es i - 1\<bar> \<le> 1 / 10 ^ 6"
      by (auto simp: off_unit_def)
  next
    fix j assume no: "\<not> off_unit (vertex_sum (elems arr) ?es i)" and j: "j < ?es"
    from i have "Suc i * ?es \<le> ?n * ?es" by (intro mult_le_mono1) simp
    with j n have "i * ?es + j < length (elems arr)" by simp
    moreover from j have "(i * ?es + j) div ?es = i" by simp
    ultimately show "ws ! (i * ?es + j) = elems arr ! (i * ?es + j)"
      using ws no by simp
  qed
  have calm: "\<not> off_unit (vertex_sum ws ?es i)" if i: "i < ?n" for i
    using sums [OF i] by (auto simp: off_unit_def)
  from lws n have n': "length ws = ?n * ?es" by simp
  from normalize_loop [OF es n' order_refl] obtain ws' where
    run': "foldM (normalize_vertex Float32 ?es) ws [0 ..< ?n] = Inr ws'"
    and lws': "length ws' = length ws"
    and ws': "\<forall>p < length ws. ws' ! p
            = (if p div ?es < ?n \<and> off_unit (vertex_sum ws ?es (p div ?es))
               then ws ! p / vertex_sum ws ?es (p div ?es) else ws ! p)"
    by blast
  have "ws' = ws"
  proof (rule nth_equalityI)
    show "length ws' = length ws" by (rule lws')
    fix p assume "p < length ws'"
    with lws' have p: "p < length ws" by simp
    with ws' calm [of "p div ?es"] show "ws' ! p = ws ! p" by auto
  qed
  with run' have again: "foldM (normalize_vertex Float32 ?es) ws [0 ..< ?n] = Inr ws" by simp
  have lc': "loop_count (length ws) ?es = ?n"
    using loop_count_exact [OF es, of ?n] n' by simp
  have second: "normalizeWeights_prim ?accs' prim = Inr ?accs'"
    using w' k again lc'
    by (simp add: normalizeWeights_prim_def getElementSize_def setArray_def)
  from first lws props second show ?thesis by blast
qed

end
